theory Spec2Isabelle
  imports Complex_Main "HOL-Library.Multiset"
begin

section \<open>Data model\<close>

text \<open>
  The depth-sorting core of \<^verbatim>\<open>model_to_svg_full.py\<close> (the same functions, line for
  line, are in \<^verbatim>\<open>model_to_svg_lite.py\<close>). Python floats are modelled as reals, a
  vertex \<^verbatim>\<open>(x, y, z)\<close> as a triple, and every raise of the source as a value of
  type \<open>error\<close>.
\<close>

type_synonym vec = "real \<times> real \<times> real"

datatype error = IndexError | TypeError | RecursionError | ZeroDivisionError

text \<open>The list \<^verbatim>\<open>bounds = [xMin, xMax, yMin, yMax, zMin, zMax]\<close>; the field \<open>b0\<close> is
  \<^verbatim>\<open>bounds[0]\<close> and so on.\<close>

record bbox =
  b0 :: real
  b1 :: real
  b2 :: real
  b3 :: real
  b4 :: real
  b5 :: real

text \<open>Class \<^verbatim>\<open>ViewPolygon\<close>; \<open>bounds\<close> is \<^verbatim>\<open>None\<close> until it is computed.\<close>

record ViewPolygon =
  verts :: "vec list"
  depth :: real
  rgb_color :: "real \<times> real \<times> real"
  stroke_color :: "real \<times> real \<times> real"
  opacity :: real
  stroke_opacity :: real
  normal :: vec
  marked :: bool
  bounds :: "bbox option"

definition PLANE_DISTANCE_THRESHOLD :: real where
  "PLANE_DISTANCE_THRESHOLD = 1 / 1000"

definition POLYGON_CULL_THRESHOLD :: real where
  "POLYGON_CULL_THRESHOLD = 1 / 1000000"

definition POLYGON_CUT_PRECISION :: real where
  "POLYGON_CUT_PRECISION = 1000"

section \<open>Vectors and the mathutils functions the code calls\<close>

fun vsub :: "vec \<Rightarrow> vec \<Rightarrow> vec" where
  "vsub (a0, a1, a2) (c0, c1, c2) = (a0 - c0, a1 - c1, a2 - c2)"

fun vadd :: "vec \<Rightarrow> vec \<Rightarrow> vec" where
  "vadd (a0, a1, a2) (c0, c1, c2) = (a0 + c0, a1 + c1, a2 + c2)"

fun vscale :: "vec \<Rightarrow> real \<Rightarrow> vec" where
  "vscale (a0, a1, a2) k = (a0 * k, a1 * k, a2 * k)"

text \<open>The operator \<^verbatim>\<open>@\<close> of two mathutils vectors.\<close>

fun dot :: "vec \<Rightarrow> vec \<Rightarrow> real" where
  "dot (a0, a1, a2) (c0, c1, c2) = a0 * c0 + a1 * c1 + a2 * c2"

definition vlength :: "vec \<Rightarrow> real" where
  "vlength a = sqrt (dot a a)"

text \<open>\<^verbatim>\<open>Vector.normalized()\<close>: the unit vector of the same direction, the zero vector
  for the zero vector.\<close>

definition normalized :: "vec \<Rightarrow> vec" where
  "normalized a = (if vlength a = 0 then (0, 0, 0) else vscale a (1 / vlength a))"

text \<open>\<^verbatim>\<open>mathutils.geometry.distance_point_to_plane(pt, plane_co, plane_no)\<close>: the signed
  distance of \<open>pt\<close> to the plane through \<open>plane_co\<close> with normal \<open>plane_no\<close>, positive
  on the side the normal points to. mathutils divides by the squared length of
  \<open>plane_no\<close>; for the zero vector that is \<^verbatim>\<open>0 / 0\<close>, and the function returns the float
  NaN, here \<open>None\<close>.\<close>

definition distance_point_to_plane :: "vec \<Rightarrow> vec \<Rightarrow> vec \<Rightarrow> real option" where
  "distance_point_to_plane pt plane_co plane_no =
     (if dot plane_no plane_no = 0 then None
      else Some (dot (vsub pt plane_co) plane_no / vlength plane_no))"

text \<open>The tolerance under which mathutils takes a line for parallel to a plane
  (the C constant of that name, \<open>2\<^sup>-\<^sup>2\<^sup>3\<close>).\<close>

definition FLT_EPSILON :: real where
  "FLT_EPSILON = 1 / 8388608"

text \<open>\<^verbatim>\<open>mathutils.geometry.intersect_line_plane(line_a, line_b, plane_co, plane_no)\<close>:
  the point where the line through \<open>line_a\<close> and \<open>line_b\<close> meets the plane, \<^verbatim>\<open>None\<close>
  when the line is parallel to it.\<close>

definition intersect_line_plane :: "vec \<Rightarrow> vec \<Rightarrow> vec \<Rightarrow> vec \<Rightarrow> vec option" where
  "intersect_line_plane line_a line_b plane_co plane_no =
     (let u = vsub line_b line_a;
          h = vsub line_a plane_co;
          d = dot plane_no u
      in if \<bar>d\<bar> > FLT_EPSILON
         then Some (vadd line_a (vscale u (- (dot plane_no h) / d)))
         else None)"

section \<open>Classification of vertices and polygons against a plane\<close>

text \<open>\<^verbatim>\<open>DepthSorter.vert_relative_pos\<close>: -1 behind, 0 within the threshold, 1 in front.
  \<^verbatim>\<open>plane_polygon.verts[0]\<close> raises IndexError on an empty vertex list. Both
  comparisons are false of NaN, which leaves the \<^verbatim>\<open>else\<close> branch.\<close>

definition vert_relative_pos :: "ViewPolygon \<Rightarrow> vec \<Rightarrow> error + int" where
  "vert_relative_pos plane_polygon vert =
     (case verts plane_polygon of
        [] \<Rightarrow> Inl IndexError
      | v0 # _ \<Rightarrow>
          (case distance_point_to_plane vert v0 (normal plane_polygon) of
             None \<Rightarrow> Inr (- 1)
           | Some distance \<Rightarrow>
               if \<bar>distance\<bar> < PLANE_DISTANCE_THRESHOLD then Inr 0
               else if distance > 0 then Inr 1
               else Inr (- 1)))"

text \<open>\<^verbatim>\<open>DepthSorter.vert_relative_pos_bool\<close>: true in front, false behind.\<close>

definition vert_relative_pos_bool :: "ViewPolygon \<Rightarrow> vec \<Rightarrow> error + bool" where
  "vert_relative_pos_bool plane_polygon vert =
     (case verts plane_polygon of
        [] \<Rightarrow> Inl IndexError
      | plane_point # _ \<Rightarrow>
          (let dir_vector = vsub vert plane_point;
               dot_product = dot dir_vector (normal plane_polygon)
           in if dot_product \<ge> 0 then Inr True else Inr False))"

text \<open>The loop of \<^verbatim>\<open>DepthSorter.relative_pos\<close> over the vertices of \<open>polygon_p\<close>, on
  the flags \<open>(all_front, all_back)\<close>.\<close>

fun relative_pos_loop :: "ViewPolygon \<Rightarrow> vec list \<Rightarrow> bool \<times> bool \<Rightarrow> error + (bool \<times> bool)" where
  "relative_pos_loop plane_polygon [] (all_front, all_back) = Inr (all_front, all_back)"
| "relative_pos_loop plane_polygon (vert # rest) (all_front, all_back) =
     (case vert_relative_pos plane_polygon vert of
        Inl e \<Rightarrow> Inl e
      | Inr vert_rel_pos \<Rightarrow>
          if vert_rel_pos = 1 then relative_pos_loop plane_polygon rest (all_front, False)
          else if vert_rel_pos = - 1 then relative_pos_loop plane_polygon rest (False, all_back)
          else relative_pos_loop plane_polygon rest (all_front, all_back))"

text \<open>\<^verbatim>\<open>DepthSorter.relative_pos\<close>: -1 when \<open>polygon_p\<close> is behind the plane, 0 when
  in collision, 1 when in front.\<close>

definition relative_pos :: "ViewPolygon \<Rightarrow> ViewPolygon \<Rightarrow> error + int" where
  "relative_pos plane_polygon polygon_p =
     (case relative_pos_loop plane_polygon (verts polygon_p) (True, True) of
        Inl e \<Rightarrow> Inl e
      | Inr (all_front, all_back) \<Rightarrow>
          if all_front then Inr 1
          else if all_back then Inr (- 1)
          else Inr 0)"

section \<open>Cutting a polygon by a plane\<close>

fun vx :: "vec \<Rightarrow> real" where "vx (x, y, z) = x"
fun vy :: "vec \<Rightarrow> real" where "vy (x, y, z) = y"
fun vz :: "vec \<Rightarrow> real" where "vz (x, y, z) = z"

text \<open>The loop of \<^verbatim>\<open>ViewPolygon.recalculate_bounds\<close> over the vertices.\<close>

fun bounds_loop :: "vec list \<Rightarrow> bbox \<Rightarrow> bbox" where
  "bounds_loop [] b = b"
| "bounds_loop (vert # rest) b =
     bounds_loop rest
       \<lparr>b0 = min (vx vert) (b0 b), b1 = max (vx vert) (b1 b),
        b2 = min (vy vert) (b2 b), b3 = max (vy vert) (b3 b),
        b4 = min (vz vert) (b4 b), b5 = max (vz vert) (b5 b)\<rparr>"

text \<open>\<^verbatim>\<open>ViewPolygon.recalculate_bounds\<close>; \<^verbatim>\<open>verts[0]\<close> raises IndexError on an empty
  vertex list.\<close>

definition recalculate_bounds :: "ViewPolygon \<Rightarrow> error + ViewPolygon" where
  "recalculate_bounds view_polygon =
     (case verts view_polygon of
        [] \<Rightarrow> Inl IndexError
      | v0 # _ \<Rightarrow>
          Inr (view_polygon\<lparr>bounds := Some (bounds_loop (verts view_polygon)
                 \<lparr>b0 = vx v0, b1 = vx v0, b2 = vy v0, b3 = vy v0, b4 = vz v0, b5 = vz v0\<rparr>)\<rparr>))"

text \<open>\<^verbatim>\<open>DepthSorter.is_fragment\<close>: the sum runs over \<^verbatim>\<open>range(0, len(verts) - 1)\<close>.\<close>

definition is_fragment :: "ViewPolygon \<Rightarrow> bool" where
  "is_fragment view_polygon =
     (if length (verts view_polygon) < 3 then True
      else
        (let vs = verts view_polygon;
             difference_sum =
               fold (\<lambda>i s. s + (\<bar>vx (vs ! i) - vx (vs ! (i + 1))\<bar>
                               + \<bar>vy (vs ! i) - vy (vs ! (i + 1))\<bar>
                               + \<bar>vz (vs ! i) - vz (vs ! (i + 1))\<bar>))
                    [0 ..< length vs - 1] 0
         in if \<bar>difference_sum\<bar> < POLYGON_CULL_THRESHOLD then True else False))"

text \<open>The state of the loop of \<^verbatim>\<open>cut_conflicting\<close>:
  \<open>(currently_in_front, front_pol_verts, back_pol_verts)\<close>.\<close>

type_synonym cut_state = "bool \<times> vec list \<times> vec list"

text \<open>One pass of the loop body of \<^verbatim>\<open>cut_conflicting\<close>, for the index \<open>i\<close> of
  \<^verbatim>\<open>enumerate(verts)\<close>. The source's \<^verbatim>\<open>next_vert\<close> is \<^verbatim>\<open>verts[(i - 1) % len(verts)]\<close>.
  When \<^verbatim>\<open>intersect_line_plane\<close> returns \<^verbatim>\<open>None\<close>, subscripting it raises the TypeError
  that the \<^verbatim>\<open>except\<close> branch catches, before anything is appended.\<close>

definition cut_step :: "ViewPolygon \<Rightarrow> vec list \<Rightarrow> nat \<Rightarrow> cut_state \<Rightarrow> error + cut_state" where
  "cut_step plane_polygon vs i st =
     (case st of (currently_in_front, front_pol_verts, back_pol_verts) \<Rightarrow>
      (let vert = vs ! i;
           next_vert = vs ! nat ((int i - 1) mod int (length vs));
           intersect_dir = vscale (normalized (vsub next_vert vert)) (1 / POLYGON_CUT_PRECISION)
       in case vert_relative_pos_bool plane_polygon vert of
         Inl e \<Rightarrow> Inl e
       | Inr in_front \<Rightarrow>
           if in_front then
             (if currently_in_front then
                Inr (currently_in_front, front_pol_verts @ [vert], back_pol_verts)
              else
                (case verts plane_polygon of
                   [] \<Rightarrow> Inl IndexError
                 | plane_co # _ \<Rightarrow>
                     (case intersect_line_plane vert next_vert plane_co (normal plane_polygon) of
                        Some intersect_vert \<Rightarrow>
                          Inr (True,
                               front_pol_verts @ [vsub intersect_vert intersect_dir] @ [vert],
                               back_pol_verts @ [vadd intersect_vert intersect_dir])
                      | None \<Rightarrow>
                          Inr (True, front_pol_verts @ [vert], back_pol_verts @ [vert]))))
           else
             (if currently_in_front then
                (case verts plane_polygon of
                   [] \<Rightarrow> Inl IndexError
                 | plane_co # _ \<Rightarrow>
                     (case intersect_line_plane vert next_vert plane_co (normal plane_polygon) of
                        Some intersect_vert \<Rightarrow>
                          Inr (False,
                               front_pol_verts @ [vadd intersect_vert intersect_dir],
                               back_pol_verts @ [vsub intersect_vert intersect_dir] @ [vert])
                      | None \<Rightarrow>
                          Inr (False, front_pol_verts @ [vert], back_pol_verts @ [vert])))
              else
                Inr (currently_in_front, front_pol_verts, back_pol_verts @ [vert]))))"

fun cut_loop :: "ViewPolygon \<Rightarrow> vec list \<Rightarrow> nat list \<Rightarrow> cut_state \<Rightarrow> error + cut_state" where
  "cut_loop plane_polygon vs [] st = Inr st"
| "cut_loop plane_polygon vs (i # rest) st =
     (case cut_step plane_polygon vs i st of
        Inl e \<Rightarrow> Inl e
      | Inr st' \<Rightarrow> cut_loop plane_polygon vs rest st')"

text \<open>The two vertex rings \<open>(front_pol_verts, back_pol_verts)\<close> that \<^verbatim>\<open>cut_conflicting\<close>
  has built when its loop ends; \<^verbatim>\<open>verts[-1]\<close> raises IndexError on an empty list.\<close>

definition cut_rings :: "ViewPolygon \<Rightarrow> ViewPolygon \<Rightarrow> error + (vec list \<times> vec list)" where
  "cut_rings plane_polygon polygon_p =
     (let vs = verts polygon_p
      in if vs = [] then Inl IndexError
         else case vert_relative_pos_bool plane_polygon (last vs) of
           Inl e \<Rightarrow> Inl e
         | Inr currently_in_front \<Rightarrow>
             (case cut_loop plane_polygon vs [0 ..< length vs] (currently_in_front, [], []) of
                Inl e \<Rightarrow> Inl e
              | Inr (_, front_pol_verts, back_pol_verts) \<Rightarrow>
                  Inr (front_pol_verts, back_pol_verts)))"

text \<open>The end of \<^verbatim>\<open>cut_conflicting\<close> for one fragment: \<^verbatim>\<open>None\<close> for a fragment below
  the cull threshold, the polygon with recalculated bounds otherwise.\<close>

definition cull :: "ViewPolygon \<Rightarrow> error + ViewPolygon option" where
  "cull view_polygon =
     (if is_fragment view_polygon then Inr None
      else case recalculate_bounds view_polygon of
        Inl e \<Rightarrow> Inl e
      | Inr p \<Rightarrow> Inr (Some p))"

text \<open>\<^verbatim>\<open>DepthSorter.cut_conflicting\<close>: \<open>polygon_p\<close> takes the front ring, its deep copy
  \<open>polygon_q\<close> the back ring.\<close>

definition cut_conflicting ::
  "ViewPolygon \<Rightarrow> ViewPolygon \<Rightarrow> error + (ViewPolygon option \<times> ViewPolygon option)" where
  "cut_conflicting plane_polygon polygon_p =
     (case cut_rings plane_polygon polygon_p of
        Inl e \<Rightarrow> Inl e
      | Inr (front_pol_verts, back_pol_verts) \<Rightarrow>
          (let polygon_p' = polygon_p\<lparr>verts := front_pol_verts\<rparr>;
               polygon_q = polygon_p'\<lparr>verts := back_pol_verts\<rparr>
           in case cull polygon_p' of
             Inl e \<Rightarrow> Inl e
           | Inr rp \<Rightarrow>
               (case cull polygon_q of
                  Inl e \<Rightarrow> Inl e
                | Inr rq \<Rightarrow> Inr (rp, rq))))"

section \<open>The conflict test\<close>

text \<open>\<^verbatim>\<open>DepthSorter.in_conflict\<close>. The test \<^verbatim>\<open>ShapelyPolygon(p).overlaps(ShapelyPolygon(q))\<close>
  of the Shapely library on the projected vertex lists is the parameter \<open>overlaps\<close>.
  Subscripting \<^verbatim>\<open>bounds\<close> raises TypeError while it is \<^verbatim>\<open>None\<close>.\<close>

definition in_conflict ::
  "((real \<times> real) list \<Rightarrow> (real \<times> real) list \<Rightarrow> bool) \<Rightarrow> ViewPolygon \<Rightarrow> ViewPolygon \<Rightarrow> error + bool" where
  "in_conflict overlaps polygon_p polygon_q =
     (case bounds polygon_p of
        None \<Rightarrow> Inl TypeError
      | Some p_bounds \<Rightarrow>
     (case bounds polygon_q of
        None \<Rightarrow> Inl TypeError
      | Some q_bounds \<Rightarrow>
          if (b4 p_bounds > b5 q_bounds \<and> b5 p_bounds > b5 q_bounds) \<or>
             (b4 p_bounds < b4 q_bounds \<and> b5 p_bounds < b4 q_bounds) then Inr False
          else if (b2 p_bounds > b3 q_bounds \<and> b3 p_bounds > b3 q_bounds) \<or>
                  (b2 p_bounds < b2 q_bounds \<and> b3 p_bounds < b2 q_bounds) then Inr False
          else if (b0 p_bounds > b1 q_bounds \<and> b1 p_bounds > b1 q_bounds) \<or>
                  (b0 p_bounds < b0 q_bounds \<and> b1 p_bounds < b0 q_bounds) then Inr False
          else
            (case relative_pos polygon_q polygon_p of
               Inl e \<Rightarrow> Inl e
             | Inr pos_p \<Rightarrow>
                 if pos_p \<noteq> 0 then Inr False
                 else
                   (case relative_pos polygon_p polygon_q of
                      Inl e \<Rightarrow> Inl e
                    | Inr pos_q \<Rightarrow>
                        if pos_q \<noteq> 0 then Inr False
                        else
                          (let p_proj_verts = map (\<lambda>vert. (vx vert, vy vert)) (verts polygon_p);
                               q_proj_verts = map (\<lambda>vert. (vx vert, vy vert)) (verts polygon_q)
                           in if \<not> overlaps p_proj_verts q_proj_verts then Inr False
                              else Inr True)))))"

section \<open>The depth heuristic sorter\<close>

text \<open>\<^verbatim>\<open>list.sort(key = ..., reverse = True)\<close>: Python's sort is stable, and with
  \<^verbatim>\<open>reverse\<close> it orders by descending key and still keeps elements of equal key in
  their original order.\<close>

definition py_sort_reverse :: "('a \<Rightarrow> real) \<Rightarrow> 'a list \<Rightarrow> 'a list" where
  "py_sort_reverse key xs = sort_key (\<lambda>x. - key x) xs"

text \<open>A sort whose key subscripts \<^verbatim>\<open>polygon.bounds\<close>.\<close>

definition sort_by_bounds :: "(bbox \<Rightarrow> real) \<Rightarrow> ViewPolygon list \<Rightarrow> error + ViewPolygon list" where
  "sort_by_bounds key view_polygons =
     (if list_ex (\<lambda>polygon. bounds polygon = None) view_polygons then Inl TypeError
      else Inr (py_sort_reverse
                  (\<lambda>polygon. case bounds polygon of Some b \<Rightarrow> key b | None \<Rightarrow> 0)
                  view_polygons))"

text \<open>The loop of the branch \<^verbatim>\<open>heuristic.weightmid\<close>, which stores the mean depth of the
  vertices in \<^verbatim>\<open>polygon.depth\<close>.\<close>

fun weightmid_loop :: "ViewPolygon list \<Rightarrow> error + ViewPolygon list" where
  "weightmid_loop [] = Inr []"
| "weightmid_loop (polygon # rest) =
     (if length (verts polygon) = 0 then Inl ZeroDivisionError
      else case weightmid_loop rest of
        Inl e \<Rightarrow> Inl e
      | Inr rest' \<Rightarrow>
          Inr (polygon\<lparr>depth := fold (\<lambda>vert d. d + vz vert) (verts polygon) 0
                                  / real (length (verts polygon))\<rparr> # rest'))"

text \<open>\<^verbatim>\<open>DepthSorter.depth_sort_bb_depth\<close>; the result is the list as it is after the
  call.\<close>

definition depth_sort_bb_depth :: "ViewPolygon list \<Rightarrow> string \<Rightarrow> error + ViewPolygon list" where
  "depth_sort_bb_depth view_polygons sorting_heuristic =
     (if sorting_heuristic = ''heuristic.bbmid''
        then sort_by_bounds (\<lambda>b. (b5 b + b4 b) / 2) view_polygons
      else if sorting_heuristic = ''heuristic.bbmin''
        then sort_by_bounds b4 view_polygons
      else if sorting_heuristic = ''heuristic.bbmax''
        then sort_by_bounds b5 view_polygons
      else if sorting_heuristic = ''heuristic.weightmid''
        then (case weightmid_loop view_polygons of
                Inl e \<Rightarrow> Inl e
              | Inr ps \<Rightarrow> Inr (py_sort_reverse depth ps))
      else Inl TypeError)"

section \<open>The BSP tree\<close>

text \<open>Class \<^verbatim>\<open>BSPNode\<close>. The nodes are objects that the builder mutates through the
  list of leaf nodes while they hang in the tree, so they live in a store: a node is
  named by its address, the index of its cell in the list of all nodes allocated so
  far, and \<^verbatim>\<open>BSPNode()\<close> allocates the next cell.\<close>

record BSPNode =
  front_node :: "nat option"
  back_node :: "nat option"
  is_leaf :: bool
  polygon_list :: "ViewPolygon list"

type_synonym store = "BSPNode list"

definition new_BSPNode :: BSPNode where
  "new_BSPNode = \<lparr>front_node = None, back_node = None, is_leaf = True, polygon_list = []\<rparr>"

text \<open>Python's \<^verbatim>\<open>round(n / 2)\<close> for a list length \<open>n\<close>: a half is rounded to the even
  neighbour.\<close>

definition round_half :: "nat \<Rightarrow> nat" where
  "round_half n =
     (if even n then n div 2
      else if even (n div 2) then n div 2
      else n div 2 + 1)"

text \<open>\<^verbatim>\<open>xs.pop(i)\<close> leaves the list without its element \<open>i\<close>.\<close>

definition pop_rest :: "'a list \<Rightarrow> nat \<Rightarrow> 'a list" where
  "pop_rest xs i = take i xs @ drop (Suc i) xs"

text \<open>\<^verbatim>\<open>if node.front_node is None: node.front_node = BSPNode()\<close> followed by
  \<^verbatim>\<open>node.front_node.polygon_list.append(p)\<close>, for the node at address \<open>a\<close>.\<close>

definition append_front :: "nat \<Rightarrow> ViewPolygon \<Rightarrow> store \<Rightarrow> store" where
  "append_front a p h =
     (case front_node (h ! a) of
        None \<Rightarrow> h[a := (h ! a)\<lparr>front_node := Some (length h)\<rparr>]
                 @ [new_BSPNode\<lparr>polygon_list := [p]\<rparr>]
      | Some n \<Rightarrow> h[n := (h ! n)\<lparr>polygon_list := polygon_list (h ! n) @ [p]\<rparr>])"

definition append_back :: "nat \<Rightarrow> ViewPolygon \<Rightarrow> store \<Rightarrow> store" where
  "append_back a p h =
     (case back_node (h ! a) of
        None \<Rightarrow> h[a := (h ! a)\<lparr>back_node := Some (length h)\<rparr>]
                 @ [new_BSPNode\<lparr>polygon_list := [p]\<rparr>]
      | Some n \<Rightarrow> h[n := (h ! n)\<lparr>polygon_list := polygon_list (h ! n) @ [p]\<rparr>])"

text \<open>The body of the loop \<^verbatim>\<open>for i in range(len(view_polygons) - 1, -1, -1)\<close> of
  \<^verbatim>\<open>depth_sort_bsp\<close> and of \<^verbatim>\<open>bsp_partition\<close>, for the polygon \<open>p\<close> that
  \<^verbatim>\<open>view_polygons.pop(i)\<close> takes out and the node at address \<open>a\<close>.\<close>

definition partition_step :: "ViewPolygon \<Rightarrow> nat \<Rightarrow> ViewPolygon \<Rightarrow> store \<Rightarrow> error + store" where
  "partition_step part_plane a p h =
     (case relative_pos part_plane p of
        Inl e \<Rightarrow> Inl e
      | Inr pos \<Rightarrow>
          if pos = 1 then Inr (append_front a p h)
          else if pos = 0 then
            (case cut_conflicting part_plane p of
               Inl e \<Rightarrow> Inl e
             | Inr (cut0, cut1) \<Rightarrow>
                 (let h1 = (case cut0 of None \<Rightarrow> h | Some f \<Rightarrow> append_front a f h);
                      h2 = (case cut1 of None \<Rightarrow> h1 | Some g \<Rightarrow> append_back a g h1)
                  in Inr h2))
          else Inr (append_back a p h))"

text \<open>The loop itself: \<open>i\<close> runs from the last index down to 0, and each pass pops the
  element \<open>i\<close>, the last of what is left; \<open>partition_loop plane a view_polygons n h\<close> has
  \<open>n\<close> elements of \<open>view_polygons\<close> left to visit.\<close>

fun partition_loop :: "ViewPolygon \<Rightarrow> nat \<Rightarrow> ViewPolygon list \<Rightarrow> nat \<Rightarrow> store \<Rightarrow> error + store" where
  "partition_loop part_plane a view_polygons 0 h = Inr h"
| "partition_loop part_plane a view_polygons (Suc i) h =
     (case partition_step part_plane a (view_polygons ! i) h of
        Inl e \<Rightarrow> Inl e
      | Inr h' \<Rightarrow> partition_loop part_plane a (pop_rest view_polygons i) i h')"

text \<open>The first loop of \<^verbatim>\<open>bsp_partition\<close> for one node: a node with more than one
  polygon gives its middle polygon as the partitioning plane, stops being a leaf,
  hands the other polygons down, and gets the plane back as its only polygon.\<close>

definition split_node :: "nat \<Rightarrow> store \<Rightarrow> error + store" where
  "split_node a h =
     (let view_polygons = polygon_list (h ! a);
          k = round_half (length view_polygons);
          part_plane = view_polygons ! k;
          rest = pop_rest view_polygons k;
          h0 = h[a := (h ! a)\<lparr>is_leaf := False\<rparr>]
      in case partition_loop part_plane a rest (length rest) h0 of
        Inl e \<Rightarrow> Inl e
      | Inr h1 \<Rightarrow> Inr (h1[a := (h1 ! a)\<lparr>polygon_list := [part_plane]\<rparr>]))"

text \<open>The first loop of \<^verbatim>\<open>bsp_partition\<close>, over the list \<^verbatim>\<open>bsp_nodes\<close>, with the flag
  \<^verbatim>\<open>changed\<close>.\<close>

fun partition_nodes :: "nat list \<Rightarrow> bool \<times> store \<Rightarrow> error + (bool \<times> store)" where
  "partition_nodes [] (changed, h) = Inr (changed, h)"
| "partition_nodes (a # rest) (changed, h) =
     (if length (polygon_list (h ! a)) > 1 then
        (case split_node a h of
           Inl e \<Rightarrow> Inl e
         | Inr h' \<Rightarrow> partition_nodes rest (True, h'))
      else partition_nodes rest (changed, h))"

text \<open>The second loop of \<^verbatim>\<open>bsp_partition\<close>, \<open>i\<close> running from the last index of
  \<^verbatim>\<open>bsp_nodes\<close> down to 0: a node that is no leaf any more is deleted from the list
  after its children have been appended.\<close>

fun update_leaf_nodes :: "store \<Rightarrow> nat \<Rightarrow> nat list \<Rightarrow> nat list" where
  "update_leaf_nodes h 0 bsp_nodes = bsp_nodes"
| "update_leaf_nodes h (Suc i) bsp_nodes =
     (let node = h ! (bsp_nodes ! i)
      in if \<not> is_leaf node then
           (let ns1 = (case front_node node of None \<Rightarrow> bsp_nodes | Some f \<Rightarrow> bsp_nodes @ [f]);
                ns2 = (case back_node node of None \<Rightarrow> ns1 | Some b \<Rightarrow> ns1 @ [b])
            in update_leaf_nodes h i (pop_rest ns2 i))
         else update_leaf_nodes h i bsp_nodes)"

text \<open>\<^verbatim>\<open>DepthSorter.bsp_partition\<close>: the flag it returns, the store and the list of leaf
  nodes after the call.\<close>

definition bsp_partition :: "store \<Rightarrow> nat list \<Rightarrow> error + (bool \<times> store \<times> nat list)" where
  "bsp_partition h bsp_nodes =
     (case partition_nodes bsp_nodes (False, h) of
        Inl e \<Rightarrow> Inl e
      | Inr (changed, h') \<Rightarrow>
          Inr (changed, h', update_leaf_nodes h' (length bsp_nodes) bsp_nodes))"

text \<open>The loop \<^verbatim>\<open>while DepthSorter.bsp_partition(leaf_nodes)\<close> of \<^verbatim>\<open>depth_sort_bsp\<close> with
  its counter \<open>j\<close>.\<close>

function bsp_cycles :: "int \<Rightarrow> int \<Rightarrow> store \<Rightarrow> nat list \<Rightarrow> error + store" where
  "bsp_cycles cycle_limit j h leaf_nodes =
     (case bsp_partition h leaf_nodes of
        Inl e \<Rightarrow> Inl e
      | Inr (changed, h', leaf_nodes') \<Rightarrow>
          if changed then
            (if j + 1 \<ge> cycle_limit then Inl RecursionError
             else bsp_cycles cycle_limit (j + 1) h' leaf_nodes')
          else Inr h')"
  by pat_completeness auto
termination
  by (relation "measure (\<lambda>(cycle_limit, j, h, leaf_nodes). nat (cycle_limit - j))") auto

declare bsp_cycles.simps [simp del]

text \<open>\<^verbatim>\<open>DepthSorter.depth_sort_bsp\<close>. The root is the node at address 0 of the store
  that is returned.\<close>

definition depth_sort_bsp :: "ViewPolygon list \<Rightarrow> int \<Rightarrow> error + store" where
  "depth_sort_bsp view_polygons cycle_limit =
     (let root_node = new_BSPNode
      in if length view_polygons = 0 then Inr [root_node]
         else
           (let k = round_half (length view_polygons);
                root_plane = view_polygons ! k;
                rest = pop_rest view_polygons k;
                root1 = root_node\<lparr>polygon_list := [root_plane]\<rparr>
            in if length rest = 0 then Inr [root1]
               else
                 (case partition_loop root_plane 0 rest (length rest) [root1\<lparr>is_leaf := False\<rparr>] of
                    Inl e \<Rightarrow> Inl e
                  | Inr h \<Rightarrow>
                      (let leaf_nodes =
                             (case front_node (h ! 0) of None \<Rightarrow> [] | Some f \<Rightarrow> [f])
                             @ (case back_node (h ! 0) of None \<Rightarrow> [] | Some b \<Rightarrow> [b])
                       in bsp_cycles cycle_limit 0 h leaf_nodes))))"

text \<open>\<^verbatim>\<open>DepthSorter.bsp_tree_to_view_polygons\<close>, on the store \<open>h\<close> and the reference \<open>root_node\<close>
  (\<^verbatim>\<open>None\<close> or an address), returning the list \<^verbatim>\<open>view_polygons\<close> after the call. The
  recursion follows the references of the store, so it is bounded by a number of
  nested calls; \<open>None\<close> is the answer of a call that would need more.\<close>

fun bsp_tree_to_view_polygons ::
  "nat \<Rightarrow> store \<Rightarrow> nat option \<Rightarrow> ViewPolygon list \<Rightarrow> vec \<Rightarrow> (error + ViewPolygon list) option" where
  "bsp_tree_to_view_polygons 0 h root_node view_polygons camera_pos = None"
| "bsp_tree_to_view_polygons (Suc n) h None view_polygons camera_pos = Some (Inr view_polygons)"
| "bsp_tree_to_view_polygons (Suc n) h (Some a) view_polygons camera_pos =
     (let node = h ! a
      in if is_leaf node then
           (case polygon_list node of
              [] \<Rightarrow> Some (Inl IndexError)
            | polygon # _ \<Rightarrow> Some (Inr (view_polygons @ [polygon])))
         else
           (case polygon_list node of
              [] \<Rightarrow> Some (Inl IndexError)
            | polygon # _ \<Rightarrow>
                (case verts polygon of
                   [] \<Rightarrow> Some (Inl IndexError)
                 | plane_point # _ \<Rightarrow>
                     (let dir_vector = vsub plane_point camera_pos
                      in if dot dir_vector (normal polygon) < 0 then
                           (case bsp_tree_to_view_polygons n h (back_node node) view_polygons camera_pos of
                              None \<Rightarrow> None
                            | Some (Inl e) \<Rightarrow> Some (Inl e)
                            | Some (Inr vps1) \<Rightarrow>
                                bsp_tree_to_view_polygons n h (front_node node) (vps1 @ [polygon]) camera_pos)
                         else
                           (case bsp_tree_to_view_polygons n h (front_node node) view_polygons camera_pos of
                              None \<Rightarrow> None
                            | Some (Inl e) \<Rightarrow> Some (Inl e)
                            | Some (Inr vps1) \<Rightarrow>
                                bsp_tree_to_view_polygons n h (back_node node) (vps1 @ [polygon]) camera_pos)))))"

section \<open>Invariants of the BSP store\<close>

text \<open>The addresses of the children of a node.\<close>

definition kids :: "BSPNode \<Rightarrow> nat set" where
  "kids n = set_option (front_node n) \<union> set_option (back_node n)"

text \<open>A node holds at least one polygon, and each of its polygons has a vertex.\<close>

definition node_ok :: "BSPNode \<Rightarrow> bool" where
  "node_ok n \<longleftrightarrow> polygon_list n \<noteq> [] \<and> (\<forall>p \<in> set (polygon_list n). verts p \<noteq> [])"

text \<open>A node as \<open>append_front\<close> and \<open>append_back\<close> leave it: a leaf without children.\<close>

definition fresh_leaf :: "BSPNode \<Rightarrow> bool" where
  "fresh_leaf n \<longleftrightarrow> is_leaf n \<and> kids n = {} \<and> node_ok n"

text \<open>A store is a tree: children are allocated after their parent, leaves have no
  children, and a node that has been split keeps its partitioning plane only.\<close>

definition wf_store :: "store \<Rightarrow> bool" where
  "wf_store h \<longleftrightarrow>
     (\<forall>a < length h.
        (\<forall>c \<in> kids (h ! a). a < c \<and> c < length h)
      \<and> (is_leaf (h ! a) \<longrightarrow> kids (h ! a) = {})
      \<and> polygon_list (h ! a) \<noteq> []
      \<and> (\<forall>p \<in> set (polygon_list (h ! a)). verts p \<noteq> [])
      \<and> (\<not> is_leaf (h ! a) \<longrightarrow> length (polygon_list (h ! a)) = 1))"

text \<open>The store \<open>h\<close> inside the partition loop of the node \<open>a\<close> that began with the store
  \<open>hs\<close>: only the child references of \<open>a\<close> have changed, and the nodes allocated since
  are the children of \<open>a\<close>.\<close>

definition loop_inv :: "nat \<Rightarrow> store \<Rightarrow> store \<Rightarrow> bool" where
  "loop_inv a hs h \<longleftrightarrow>
     a < length hs \<and> length hs \<le> length h
   \<and> (\<forall>x < length hs. x \<noteq> a \<longrightarrow> h ! x = hs ! x)
   \<and> is_leaf (h ! a) = is_leaf (hs ! a) \<and> polygon_list (h ! a) = polygon_list (hs ! a)
   \<and> kids (h ! a) = {length hs ..< length h}
   \<and> (\<forall>c. length hs \<le> c \<and> c < length h \<longrightarrow>
          is_leaf (h ! c) \<and> kids (h ! c) = {} \<and> polygon_list (h ! c) \<noteq> []
        \<and> (\<forall>p \<in> set (polygon_list (h ! c)). verts p \<noteq> []))"

text \<open>The store \<open>h\<close> during a pass of \<open>bsp_partition\<close> over the leaf list \<open>ns\<close> that began
  with the store \<open>hs\<close>: an old node is unchanged or is a node of \<open>ns\<close> that has been
  split, and the nodes allocated since are the children of the split nodes.\<close>

definition pass_ext :: "store \<Rightarrow> nat list \<Rightarrow> store \<Rightarrow> bool" where
  "pass_ext hs ns h \<longleftrightarrow>
     length hs \<le> length h
   \<and> (\<forall>x < length hs. h ! x = hs ! x
         \<or> (x \<in> set ns \<and> \<not> is_leaf (h ! x) \<and> length (polygon_list (h ! x)) = 1 \<and> node_ok (h ! x)
            \<and> kids (h ! x) \<subseteq> {length hs ..< length h}))
   \<and> (\<forall>c. length hs \<le> c \<and> c < length h \<longrightarrow>
          fresh_leaf (h ! c) \<and> (\<exists>x \<in> set ns. x < length hs \<and> \<not> is_leaf (h ! x) \<and> c \<in> kids (h ! x)))"

text \<open>The list \<^verbatim>\<open>leaf_nodes\<close> holds exactly the leaves of the store.\<close>

definition leaves_tracked :: "store \<Rightarrow> nat list \<Rightarrow> bool" where
  "leaves_tracked h ns \<longleftrightarrow>
     (\<forall>a < length h. is_leaf (h ! a) \<longrightarrow> a \<in> set ns)
   \<and> (\<forall>a \<in> set ns. a < length h \<and> is_leaf (h ! a))"

text \<open>A finished tree: a tree with a root in which every node holds exactly one
  polygon.\<close>

definition built :: "store \<Rightarrow> bool" where
  "built h \<longleftrightarrow> wf_store h \<and> h \<noteq> [] \<and> (\<forall>a < length h. length (polygon_list (h ! a)) = 1)"

text \<open>The number of node subdivisions that made a store: every subdivision turns one
  leaf into an inner node.\<close>

definition subdivisions :: "store \<Rightarrow> nat" where
  "subdivisions h = length (filter (\<lambda>n. \<not> is_leaf n) h)"

section \<open>Sides of the partitioning planes\<close>

text \<open>The dot product that \<^verbatim>\<open>vert_relative_pos_bool\<close> tests: positive on the side of
  the plane of \<open>plane_polygon\<close> that its normal points to.\<close>

definition signed_dot :: "ViewPolygon \<Rightarrow> vec \<Rightarrow> real" where
  "signed_dot plane_polygon vert = dot (vsub vert (hd (verts plane_polygon))) (normal plane_polygon)"

text \<open>The state of the loop of \<^verbatim>\<open>cut_conflicting\<close> before the pass for the index \<open>i\<close>:
  \<^verbatim>\<open>currently_in_front\<close> is the side of the vertex before \<open>i\<close>, no vertex of the front
  ring is farther than \<open>FLT_EPSILON\<close> behind the plane, and none of the back ring
  farther than that in front of it.\<close>

definition cut_inv :: "ViewPolygon \<Rightarrow> vec list \<Rightarrow> nat \<Rightarrow> cut_state \<Rightarrow> bool" where
  "cut_inv Q vs i st =
     (case st of (currently_in_front, front_pol_verts, back_pol_verts) \<Rightarrow>
        (currently_in_front \<longleftrightarrow> 0 \<le> signed_dot Q (vs ! nat ((int i - 1) mod int (length vs))))
      \<and> (\<forall>v \<in> set front_pol_verts. - FLT_EPSILON \<le> signed_dot Q v)
      \<and> (\<forall>v \<in> set back_pol_verts. signed_dot Q v \<le> FLT_EPSILON))"

section \<open>The overlap test of the Shapely library\<close>

text \<open>
  \<^verbatim>\<open>ShapelyPolygon(ring)\<close> is the region that the closed ring of screen points bounds.
  \<^verbatim>\<open>a.overlaps(b)\<close> is the predicate of that name of the DE-9IM model that Shapely
  documents: of two polygons it holds when their interiors have a point in common,
  and each has a point of its interior outside the other (the intersection matrix
  \<^verbatim>\<open>T*T***T**\<close>); it is false of a polygon that lies within the other. The regions are
  modelled for convex rings, given in either orientation, by the cross products of a
  point with the edges of the ring.
\<close>

type_synonym point2 = "real \<times> real"

text \<open>The cross product of the edge from \<open>a\<close> to \<open>b\<close> with the vector from \<open>a\<close> to \<open>p\<close>:
  positive when \<open>p\<close> is to the left of the edge.\<close>

fun cross2 :: "point2 \<Rightarrow> point2 \<Rightarrow> point2 \<Rightarrow> real" where
  "cross2 (ax, ay) (bx, by) (px, py) = (bx - ax) * (py - ay) - (by - ay) * (px - ax)"

text \<open>The edges of a ring, the last one back to its first point.\<close>

definition ring_edges :: "point2 list \<Rightarrow> (point2 \<times> point2) list" where
  "ring_edges ring = zip ring (rotate1 ring)"

text \<open>A point of the interior of a convex ring is strictly on the inner side of
  every edge.\<close>

definition interior_point :: "point2 list \<Rightarrow> point2 \<Rightarrow> bool" where
  "interior_point ring p \<longleftrightarrow>
     ring \<noteq> []
   \<and> (list_all (\<lambda>(a, b). 0 < cross2 a b p) (ring_edges ring)
      \<or> list_all (\<lambda>(a, b). cross2 a b p < 0) (ring_edges ring))"

text \<open>A point of the exterior is neither in the interior nor on the boundary.\<close>

definition exterior_point :: "point2 list \<Rightarrow> point2 \<Rightarrow> bool" where
  "exterior_point ring p \<longleftrightarrow>
     \<not> (list_all (\<lambda>(a, b). 0 \<le> cross2 a b p) (ring_edges ring)
        \<or> list_all (\<lambda>(a, b). cross2 a b p \<le> 0) (ring_edges ring))"

definition shapely_overlaps :: "point2 list \<Rightarrow> point2 list \<Rightarrow> bool" where
  "shapely_overlaps ring_a ring_b \<longleftrightarrow>
     (\<exists>p. interior_point ring_a p \<and> interior_point ring_b p)
   \<and> (\<exists>p. interior_point ring_a p \<and> exterior_point ring_b p)
   \<and> (\<exists>p. exterior_point ring_a p \<and> interior_point ring_b p)"

section \<open>Notions of the specification\<close>

text \<open>The summed absolute coordinate deltas of a vertex ring, over its consecutive
  vertices.\<close>

definition coordinate_deltas :: "vec list \<Rightarrow> real" where
  "coordinate_deltas vs =
     sum_list (map (\<lambda>(a, c). \<bar>vx a - vx c\<bar> + \<bar>vy a - vy c\<bar> + \<bar>vz a - vz c\<bar>) (zip vs (tl vs)))"

text \<open>Two bounding boxes overlap on all three axes.\<close>

definition bounds_overlap :: "bbox \<Rightarrow> bbox \<Rightarrow> bool" where
  "bounds_overlap p q \<longleftrightarrow>
     b0 p \<le> b1 q \<and> b0 q \<le> b1 p \<and> b2 p \<le> b3 q \<and> b2 q \<le> b3 p \<and> b4 p \<le> b5 q \<and> b4 q \<le> b5 p"

text \<open>The projection of a polygon to screen space.\<close>

definition projection :: "ViewPolygon \<Rightarrow> (real \<times> real) list" where
  "projection p = map (\<lambda>vert. (vx vert, vy vert)) (verts p)"

text \<open>The projections of two polygons overlap geometrically: they have an area in
  common, that is, a point in the interior of both.\<close>

definition projections_overlap :: "ViewPolygon \<Rightarrow> ViewPolygon \<Rightarrow> bool" where
  "projections_overlap p q \<longleftrightarrow>
     (\<exists>pt. interior_point (projection p) pt \<and> interior_point (projection q) pt)"

definition mean_vertex_depth :: "ViewPolygon \<Rightarrow> real" where
  "mean_vertex_depth p = sum_list (map vz (verts p)) / real (length (verts p))"

text \<open>The scalar a sorting heuristic orders polygons by: the minimum depth
  (\<^verbatim>\<open>heuristic.bbmin\<close>, "Closest vertex"), the maximum depth (\<^verbatim>\<open>heuristic.bbmax\<close>), the
  midpoint of the two (\<^verbatim>\<open>heuristic.bbmid\<close>), or the mean depth of the vertices
  (\<^verbatim>\<open>heuristic.weightmid\<close>).\<close>

definition heuristic_key :: "string \<Rightarrow> ViewPolygon \<Rightarrow> real" where
  "heuristic_key h p =
     (if h = ''heuristic.weightmid'' then mean_vertex_depth p
      else case bounds p of
        None \<Rightarrow> 0
      | Some b \<Rightarrow>
          if h = ''heuristic.bbmin'' then b4 b
          else if h = ''heuristic.bbmax'' then b5 b
          else (b4 b + b5 b) / 2)"

section \<open>Polygons of the examples\<close>

text \<open>The axis-aligned unit square at depth \<open>z\<close> whose corner is \<open>(x, 0)\<close>, with its
  bounds computed.\<close>

definition unit_square :: "real \<Rightarrow> real \<Rightarrow> ViewPolygon" where
  "unit_square x z =
     \<lparr>verts = [(x, 0, z), (x + 1, 0, z), (x + 1, 1, z), (x, 1, z)], depth = z,
      rgb_color = (1, 0, 0), stroke_color = (1, 0, 0), opacity = 1, stroke_opacity = 1,
      normal = (0, 0, 1), marked = False,
      bounds = Some \<lparr>b0 = x, b1 = x + 1, b2 = 0, b3 = 1, b4 = z, b5 = z\<rparr>\<rparr>"

text \<open>A square in the plane \<open>y = 0\<close> that the plane \<open>z = 0\<close> cuts in two halves.\<close>

definition wall :: ViewPolygon where
  "wall = \<lparr>verts = [(0, 0, 1), (1, 0, 1), (1, 0, - 1), (0, 0, - 1)], depth = 0,
           rgb_color = (0, 0, 1), stroke_color = (0, 1, 1), opacity = 1 / 2, stroke_opacity = 1,
           normal = (0, 1, 0), marked = False,
           bounds = Some \<lparr>b0 = 0, b1 = 1, b2 = 0, b3 = 0, b4 = - 1, b5 = 1\<rparr>\<rparr>"

text \<open>A degenerate face, three vertices on one line, with the zero vector as its
  normal.\<close>

definition needle :: ViewPolygon where
  "needle = \<lparr>verts = [(0, 0, 0), (1, 0, 0), (2, 0, 0)], depth = 0,
             rgb_color = (1, 0, 0), stroke_color = (1, 0, 0), opacity = 1, stroke_opacity = 1,
             normal = (0, 0, 0), marked = False,
             bounds = Some \<lparr>b0 = 0, b1 = 2, b2 = 0, b3 = 0, b4 = 0, b5 = 0\<rparr>\<rparr>"

text \<open>A triangle whose edges leave the plane \<open>z = 0\<close> by less than the tolerance of
  \<^verbatim>\<open>intersect_line_plane\<close>.\<close>

definition sliver :: ViewPolygon where
  "sliver = \<lparr>verts = [(0, 0, 1 / 100000000), (1, 0, - 1 / 100000000), (0, 1, - 1 / 100000000)],
             depth = 0, rgb_color = (0, 1, 0), stroke_color = (0, 1, 0), opacity = 1,
             stroke_opacity = 1, normal = (0, 0, 1), marked = False, bounds = None\<rparr>"

text \<open>A strip in the plane \<open>y = 0\<close> from 0.0005 above to 0.0005 below the plane
  \<open>z = 0\<close>.\<close>

definition band :: ViewPolygon where
  "band = \<lparr>verts = [(0, 0, 1 / 2000), (1, 0, 1 / 2000), (1, 0, - 1 / 2000), (0, 0, - 1 / 2000)],
           depth = 0, rgb_color = (0, 0, 1), stroke_color = (0, 1, 1), opacity = 1 / 2,
           stroke_opacity = 1, normal = (0, 1, 0), marked = False,
           bounds = Some \<lparr>b0 = 0, b1 = 1, b2 = 0, b3 = 0, b4 = - 1 / 2000, b5 = 1 / 2000\<rparr>\<rparr>"

text \<open>A hexagon in the plane \<open>y = 0\<close> with one edge, from its vertex 2 to its vertex 3,
  that passes through the plane \<open>z = 0\<close> under the tolerance of \<^verbatim>\<open>intersect_line_plane\<close>.\<close>

definition notch :: ViewPolygon where
  "notch = \<lparr>verts = [(0, 0, 1), (1, 0, 1), (1, 0, 1 / 100000000), (2, 0, - 1 / 100000000),
                      (2, 0, - 1), (0, 0, - 1)],
            depth = 0, rgb_color = (0, 1, 0), stroke_color = (0, 1, 0), opacity = 1,
            stroke_opacity = 1, normal = (0, 1, 0), marked = False,
            bounds = Some \<lparr>b0 = 0, b1 = 2, b2 = 0, b3 = 0, b4 = - 1, b5 = 1\<rparr>\<rparr>"

text \<open>A square in the plane \<open>z = 0\<close> that the plane \<open>y = 0\<close> of \<open>wall\<close> cuts in two
  halves.\<close>

definition slab :: ViewPolygon where
  "slab = \<lparr>verts = [(0, - 1, 0), (1, - 1, 0), (1, 1, 0), (0, 1, 0)], depth = 0,
           rgb_color = (1, 1, 0), stroke_color = (1, 1, 0), opacity = 1, stroke_opacity = 1,
           normal = (0, 0, 1), marked = False,
           bounds = Some \<lparr>b0 = 0, b1 = 1, b2 = - 1, b3 = 1, b4 = 0, b5 = 0\<rparr>\<rparr>"

text \<open>Two squares that cross each other along the line \<open>x = 10\<close>, \<open>z = 10\<close>: the
  smaller one rises with \<open>x\<close>, the larger one falls, and on the screen the smaller
  one lies inside the larger one.\<close>

definition inner_quad :: ViewPolygon where
  "inner_quad = \<lparr>verts = [(6, 6, 7), (14, 6, 13), (14, 14, 13), (6, 14, 7)], depth = 10,
                 rgb_color = (1, 0, 0), stroke_color = (1, 0, 0), opacity = 1, stroke_opacity = 1,
                 normal = (- 3 / 5, 0, 4 / 5), marked = False,
                 bounds = Some \<lparr>b0 = 6, b1 = 14, b2 = 6, b3 = 14, b4 = 7, b5 = 13\<rparr>\<rparr>"

definition outer_quad :: ViewPolygon where
  "outer_quad = \<lparr>verts = [(2, 2, 16), (18, 2, 4), (18, 18, 4), (2, 18, 16)], depth = 10,
                 rgb_color = (0, 1, 0), stroke_color = (0, 1, 0), opacity = 1, stroke_opacity = 1,
                 normal = (3 / 5, 0, 4 / 5), marked = False,
                 bounds = Some \<lparr>b0 = 2, b1 = 18, b2 = 2, b3 = 18, b4 = 4, b5 = 16\<rparr>\<rparr>"

text \<open>Three polygons in front of a camera at depth 0: \<open>ground\<close> in the plane
  \<open>z = 10\<close>, \<open>ramp\<close> in the plane \<open>3 y + 4 (z - 10) = - 0.0032\<close> that falls away behind
  it, and \<open>fin\<close> in the plane \<open>y = 0\<close>, from just above \<open>ground\<close> down to depth 5.\<close>

definition ground :: ViewPolygon where
  "ground = \<lparr>verts = [(0, 0, 10), (1, 0, 10), (1, 1, 10), (0, 1, 10)], depth = 10,
             rgb_color = (1, 0, 0), stroke_color = (1, 0, 0), opacity = 1, stroke_opacity = 1,
             normal = (0, 0, 1), marked = False,
             bounds = Some \<lparr>b0 = 0, b1 = 1, b2 = 0, b3 = 1, b4 = 10, b5 = 10\<rparr>\<rparr>"

definition ramp :: ViewPolygon where
  "ramp = \<lparr>verts = [(- 1, 0, 99992 / 10000), (2, 0, 99992 / 10000),
                     (2, 4, 69992 / 10000), (- 1, 4, 69992 / 10000)], depth = 17 / 2,
           rgb_color = (0, 1, 0), stroke_color = (0, 1, 0), opacity = 1, stroke_opacity = 1,
           normal = (0, 3 / 5, 4 / 5), marked = False,
           bounds = Some \<lparr>b0 = - 1, b1 = 2, b2 = 0, b3 = 4, b4 = 69992 / 10000, b5 = 99992 / 10000\<rparr>\<rparr>"

definition fin :: ViewPolygon where
  "fin = \<lparr>verts = [(0, 0, 100009 / 10000), (1, 0, 100009 / 10000), (1, 0, 5), (0, 0, 5)],
          depth = 15 / 2,
          rgb_color = (0, 0, 1), stroke_color = (0, 0, 1), opacity = 1, stroke_opacity = 1,
          normal = (0, 1, 0), marked = False,
          bounds = Some \<lparr>b0 = 0, b1 = 1, b2 = 0, b3 = 0, b4 = 5, b5 = 100009 / 10000\<rparr>\<rparr>"

text \<open>The two fragments of \<open>fin\<close> cut by the plane of \<open>ramp\<close>.\<close>

definition fin_front :: ViewPolygon where
  "fin_front = fin\<lparr>verts := [(0, 0, 100002 / 10000), (0, 0, 100009 / 10000),
                               (1, 0, 100009 / 10000), (1, 0, 100002 / 10000)],
                     bounds := Some \<lparr>b0 = 0, b1 = 1, b2 = 0, b3 = 0,
                                     b4 = 100002 / 10000, b5 = 100009 / 10000\<rparr>\<rparr>"

definition fin_back :: ViewPolygon where
  "fin_back = fin\<lparr>verts := [(0, 0, 99982 / 10000), (1, 0, 99982 / 10000), (1, 0, 5), (0, 0, 5)],
                    bounds := Some \<lparr>b0 = 0, b1 = 1, b2 = 0, b3 = 0, b4 = 5, b5 = 99982 / 10000\<rparr>\<rparr>"

text \<open>The store that \<open>depth_sort_bsp\<close> builds from \<open>[ramp, fin, ground]\<close>.\<close>

definition ce_store :: store where
  "ce_store =
     [\<lparr>front_node = None, back_node = Some 1, is_leaf = False, polygon_list = [ground]\<rparr>,
      \<lparr>front_node = Some 2, back_node = Some 3, is_leaf = False, polygon_list = [ramp]\<rparr>,
      \<lparr>front_node = None, back_node = None, is_leaf = True, polygon_list = [fin_front]\<rparr>,
      \<lparr>front_node = None, back_node = None, is_leaf = True, polygon_list = [fin_back]\<rparr>]"

text \<open>Unit squares stacked at the depths \<open>z\<close>, and the stores of the builder on eleven
  of them in the order of their depths (\<open>levels_store0\<close> after the partition of the
  root, the next ones after each pass of \<open>bsp_partition\<close>) and on seven of them in an
  order that makes every pass split a single node (\<open>chain_store0\<close> and so on).\<close>

definition level :: "real \<Rightarrow> ViewPolygon" where
  "level z = unit_square 0 z"

definition levels :: "ViewPolygon list" where
  "levels = [level 1, level 2, level 3, level 4, level 5, level 6, level 7, level 8, level 9, level 10, level 11]"

definition levels_store0 :: store where
  "levels_store0 =
     [\<lparr>front_node = Some 1, back_node = Some 2, is_leaf = False, polygon_list = [level 7]\<rparr>,
      \<lparr>front_node = None, back_node = None, is_leaf = True, polygon_list = [level 11, level 10, level 9, level 8]\<rparr>,
      \<lparr>front_node = None, back_node = None, is_leaf = True, polygon_list = [level 6, level 5, level 4, level 3, level 2, level 1]\<rparr>]"

definition levels_store1 :: store where
  "levels_store1 =
     [\<lparr>front_node = Some 1, back_node = Some 2, is_leaf = False, polygon_list = [level 7]\<rparr>,
      \<lparr>front_node = Some 4, back_node = Some 3, is_leaf = False, polygon_list = [level 9]\<rparr>,
      \<lparr>front_node = Some 6, back_node = Some 5, is_leaf = False, polygon_list = [level 3]\<rparr>,
      \<lparr>front_node = None, back_node = None, is_leaf = True, polygon_list = [level 8]\<rparr>,
      \<lparr>front_node = None, back_node = None, is_leaf = True, polygon_list = [level 10, level 11]\<rparr>,
      \<lparr>front_node = None, back_node = None, is_leaf = True, polygon_list = [level 1, level 2]\<rparr>,
      \<lparr>front_node = None, back_node = None, is_leaf = True, polygon_list = [level 4, level 5, level 6]\<rparr>]"

definition levels_store2 :: store where
  "levels_store2 =
     [\<lparr>front_node = Some 1, back_node = Some 2, is_leaf = False, polygon_list = [level 7]\<rparr>,
      \<lparr>front_node = Some 4, back_node = Some 3, is_leaf = False, polygon_list = [level 9]\<rparr>,
      \<lparr>front_node = Some 6, back_node = Some 5, is_leaf = False, polygon_list = [level 3]\<rparr>,
      \<lparr>front_node = None, back_node = None, is_leaf = True, polygon_list = [level 8]\<rparr>,
      \<lparr>front_node = None, back_node = Some 9, is_leaf = False, polygon_list = [level 11]\<rparr>,
      \<lparr>front_node = None, back_node = Some 8, is_leaf = False, polygon_list = [level 2]\<rparr>,
      \<lparr>front_node = None, back_node = Some 7, is_leaf = False, polygon_list = [level 6]\<rparr>,
      \<lparr>front_node = None, back_node = None, is_leaf = True, polygon_list = [level 5, level 4]\<rparr>,
      \<lparr>front_node = None, back_node = None, is_leaf = True, polygon_list = [level 1]\<rparr>,
      \<lparr>front_node = None, back_node = None, is_leaf = True, polygon_list = [level 10]\<rparr>]"

definition levels_store3 :: store where
  "levels_store3 =
     [\<lparr>front_node = Some 1, back_node = Some 2, is_leaf = False, polygon_list = [level 7]\<rparr>,
      \<lparr>front_node = Some 4, back_node = Some 3, is_leaf = False, polygon_list = [level 9]\<rparr>,
      \<lparr>front_node = Some 6, back_node = Some 5, is_leaf = False, polygon_list = [level 3]\<rparr>,
      \<lparr>front_node = None, back_node = None, is_leaf = True, polygon_list = [level 8]\<rparr>,
      \<lparr>front_node = None, back_node = Some 9, is_leaf = False, polygon_list = [level 11]\<rparr>,
      \<lparr>front_node = None, back_node = Some 8, is_leaf = False, polygon_list = [level 2]\<rparr>,
      \<lparr>front_node = None, back_node = Some 7, is_leaf = False, polygon_list = [level 6]\<rparr>,
      \<lparr>front_node = Some 10, back_node = None, is_leaf = False, polygon_list = [level 4]\<rparr>,
      \<lparr>front_node = None, back_node = None, is_leaf = True, polygon_list = [level 1]\<rparr>,
      \<lparr>front_node = None, back_node = None, is_leaf = True, polygon_list = [level 10]\<rparr>,
      \<lparr>front_node = None, back_node = None, is_leaf = True, polygon_list = [level 5]\<rparr>]"

definition chain :: "ViewPolygon list" where
  "chain = [level 1, level 4, level 6, level 5, level 7, level 2, level 3]"

definition chain_store0 :: store where
  "chain_store0 =
     [\<lparr>front_node = None, back_node = Some 1, is_leaf = False, polygon_list = [level 7]\<rparr>,
      \<lparr>front_node = None, back_node = None, is_leaf = True, polygon_list = [level 3, level 2, level 5, level 6, level 4, level 1]\<rparr>]"

definition chain_store1 :: store where
  "chain_store1 =
     [\<lparr>front_node = None, back_node = Some 1, is_leaf = False, polygon_list = [level 7]\<rparr>,
      \<lparr>front_node = None, back_node = Some 2, is_leaf = False, polygon_list = [level 6]\<rparr>,
      \<lparr>front_node = None, back_node = None, is_leaf = True, polygon_list = [level 1, level 4, level 5, level 2, level 3]\<rparr>]"

definition chain_store2 :: store where
  "chain_store2 =
     [\<lparr>front_node = None, back_node = Some 1, is_leaf = False, polygon_list = [level 7]\<rparr>,
      \<lparr>front_node = None, back_node = Some 2, is_leaf = False, polygon_list = [level 6]\<rparr>,
      \<lparr>front_node = None, back_node = Some 3, is_leaf = False, polygon_list = [level 5]\<rparr>,
      \<lparr>front_node = None, back_node = None, is_leaf = True, polygon_list = [level 3, level 2, level 4, level 1]\<rparr>]"

definition chain_store3 :: store where
  "chain_store3 =
     [\<lparr>front_node = None, back_node = Some 1, is_leaf = False, polygon_list = [level 7]\<rparr>,
      \<lparr>front_node = None, back_node = Some 2, is_leaf = False, polygon_list = [level 6]\<rparr>,
      \<lparr>front_node = None, back_node = Some 3, is_leaf = False, polygon_list = [level 5]\<rparr>,
      \<lparr>front_node = None, back_node = Some 4, is_leaf = False, polygon_list = [level 4]\<rparr>,
      \<lparr>front_node = None, back_node = None, is_leaf = True, polygon_list = [level 1, level 2, level 3]\<rparr>]"

definition chain_store4 :: store where
  "chain_store4 =
     [\<lparr>front_node = None, back_node = Some 1, is_leaf = False, polygon_list = [level 7]\<rparr>,
      \<lparr>front_node = None, back_node = Some 2, is_leaf = False, polygon_list = [level 6]\<rparr>,
      \<lparr>front_node = None, back_node = Some 3, is_leaf = False, polygon_list = [level 5]\<rparr>,
      \<lparr>front_node = None, back_node = Some 4, is_leaf = False, polygon_list = [level 4]\<rparr>,
      \<lparr>front_node = None, back_node = Some 5, is_leaf = False, polygon_list = [level 3]\<rparr>,
      \<lparr>front_node = None, back_node = None, is_leaf = True, polygon_list = [level 2, level 1]\<rparr>]"

definition chain_store5 :: store where
  "chain_store5 =
     [\<lparr>front_node = None, back_node = Some 1, is_leaf = False, polygon_list = [level 7]\<rparr>,
      \<lparr>front_node = None, back_node = Some 2, is_leaf = False, polygon_list = [level 6]\<rparr>,
      \<lparr>front_node = None, back_node = Some 3, is_leaf = False, polygon_list = [level 5]\<rparr>,
      \<lparr>front_node = None, back_node = Some 4, is_leaf = False, polygon_list = [level 4]\<rparr>,
      \<lparr>front_node = None, back_node = Some 5, is_leaf = False, polygon_list = [level 3]\<rparr>,
      \<lparr>front_node = Some 6, back_node = None, is_leaf = False, polygon_list = [level 1]\<rparr>,
      \<lparr>front_node = None, back_node = None, is_leaf = True, polygon_list = [level 2]\<rparr>]"

section \<open>Classification: theorems\<close>

lemma vert_relative_pos_cases:
  assumes "verts Q \<noteq> []"
  shows "vert_relative_pos Q v = Inr 0 \<or> vert_relative_pos Q v = Inr 1
       \<or> vert_relative_pos Q v = Inr (- 1)"
  using assms
  by (cases "verts Q") (simp_all add: vert_relative_pos_def Let_def split: option.splits)

lemma relative_pos_loop_flags:
  assumes "verts Q \<noteq> []"
  shows "relative_pos_loop Q vs (af, ab) =
     Inr (af \<and> (\<forall>v \<in> set vs. vert_relative_pos Q v \<noteq> Inr (- 1)),
          ab \<and> (\<forall>v \<in> set vs. vert_relative_pos Q v \<noteq> Inr 1))"
proof (induction vs arbitrary: af ab)
  case Nil
  show ?case by simp
next
  case (Cons v vs)
  from vert_relative_pos_cases [OF assms, of v] show ?case
    using Cons.IH by auto
qed

lemma relative_pos_eq:
  assumes "verts Q \<noteq> []"
  shows "relative_pos Q P =
           Inr (if \<forall>w \<in> set (verts P). vert_relative_pos Q w \<noteq> Inr (- 1) then 1
                else if \<forall>w \<in> set (verts P). vert_relative_pos Q w \<noteq> Inr 1 then - 1
                else 0)"
  by (simp add: relative_pos_def relative_pos_loop_flags [OF assms])

lemma relative_pos_total:
  assumes "verts Q \<noteq> []"
  shows "\<exists>r. relative_pos Q P = Inr r"
  by (simp add: relative_pos_eq [OF assms])

lemma dot_self_eq_0_iff: "dot n n = 0 \<longleftrightarrow> n = (0, 0, 0)"
proof (cases n)
  fix x y z :: real
  assume n: "n = (x, y, z)"
  have "x * x + y * y + z * z = 0 \<longleftrightarrow> x = 0 \<and> y = 0 \<and> z = 0"
    by (metis add_nonneg_eq_0_iff zero_le_square mult_eq_0_iff add_nonneg_nonneg mult_zero_left
        add_0)
  then show ?thesis by (simp add: n)
qed

lemma vert_relative_pos_distance:
  assumes "verts Q \<noteq> []" and "normal Q \<noteq> (0, 0, 0)"
  shows "vert_relative_pos Q v =
           Inr (let d = dot (vsub v (hd (verts Q))) (normal Q) / vlength (normal Q)
                in if \<bar>d\<bar> < 1 / 1000 then 0 else if d > 0 then 1 else - 1)"
  using assms
  by (cases "verts Q")
    (simp_all add: vert_relative_pos_def distance_point_to_plane_def dot_self_eq_0_iff Let_def
       PLANE_DISTANCE_THRESHOLD_def)

lemma vert_relative_pos_zero_normal:
  assumes "verts Q \<noteq> []" and "normal Q = (0, 0, 0)"
  shows "vert_relative_pos Q v = Inr (- 1)"
  using assms
  by (cases "verts Q") (simp_all add: vert_relative_pos_def distance_point_to_plane_def)

text \<open>
  Claim C3. For a plane polygon \<open>Q\<close> with a first vertex and a normal that is not the
  zero vector: the signed distance of a vertex to the plane through the first vertex
  of \<open>Q\<close> with the normal of \<open>Q\<close> is a number \<open>d\<close>, and the vertex is classified On (0)
  exactly when \<open>\<bar>d\<bar> < 0.001\<close>, and otherwise Front (1) or Behind (-1) by the sign of
  \<open>d\<close>. For the zero normal (a degenerate face) the distance is NaN and every vertex is
  classified Behind. In both cases \<open>relative_pos Q P\<close> is Front when no vertex of \<open>P\<close> is
  Behind, Behind when some vertex is Behind and none is Front, and Straddling (0)
  otherwise; a polygon whose vertices are all On is Front.
\<close>

theorem relative_pos_classification:
  assumes "verts Q \<noteq> []"
  shows "(normal Q \<noteq> (0, 0, 0) \<longrightarrow>
            (let d = dot (vsub v (hd (verts Q))) (normal Q) / vlength (normal Q)
             in distance_point_to_plane v (hd (verts Q)) (normal Q) = Some d
              \<and> vert_relative_pos Q v =
                  Inr (if \<bar>d\<bar> < 1 / 1000 then 0 else if d > 0 then 1 else - 1)))
       \<and> (normal Q = (0, 0, 0) \<longrightarrow>
            distance_point_to_plane v (hd (verts Q)) (normal Q) = None
          \<and> vert_relative_pos Q v = Inr (- 1))
       \<and> relative_pos Q P =
           Inr (if \<forall>w \<in> set (verts P). vert_relative_pos Q w \<noteq> Inr (- 1) then 1
                else if \<forall>w \<in> set (verts P). vert_relative_pos Q w \<noteq> Inr 1 then - 1
                else 0)
       \<and> ((\<forall>w \<in> set (verts P). vert_relative_pos Q w = Inr 0) \<longrightarrow> relative_pos Q P = Inr 1)"
proof (intro conjI impI)
  assume n: "normal Q \<noteq> (0, 0, 0)"
  show "let d = dot (vsub v (hd (verts Q))) (normal Q) / vlength (normal Q)
        in distance_point_to_plane v (hd (verts Q)) (normal Q) = Some d
         \<and> vert_relative_pos Q v = Inr (if \<bar>d\<bar> < 1 / 1000 then 0 else if d > 0 then 1 else - 1)"
    using vert_relative_pos_distance [OF assms n, of v] n
    by (simp add: Let_def distance_point_to_plane_def dot_self_eq_0_iff)
next
  assume n: "normal Q = (0, 0, 0)"
  show "distance_point_to_plane v (hd (verts Q)) (normal Q) = None"
    by (simp add: n distance_point_to_plane_def)
  show "vert_relative_pos Q v = Inr (- 1)"
    by (rule vert_relative_pos_zero_normal [OF assms n])
next
  show "relative_pos Q P =
           Inr (if \<forall>w \<in> set (verts P). vert_relative_pos Q w \<noteq> Inr (- 1) then 1
                else if \<forall>w \<in> set (verts P). vert_relative_pos Q w \<noteq> Inr 1 then - 1
                else 0)"
    by (rule relative_pos_eq [OF assms])
next
  assume "\<forall>w \<in> set (verts P). vert_relative_pos Q w = Inr 0"
  then show "relative_pos Q P = Inr 1"
    unfolding relative_pos_eq [OF assms] by auto
qed

lemma unit_square_on_plane:
  "vert_relative_pos (unit_square 0 0) (x, y, 0) = Inr 0"
  by (simp add: unit_square_def vert_relative_pos_def distance_point_to_plane_def vlength_def
        PLANE_DISTANCE_THRESHOLD_def)

theorem relative_pos_classification_witness:
  "verts (unit_square 0 0) \<noteq> [] \<and> normal (unit_square 0 0) \<noteq> (0, 0, 0)
   \<and> list_all (\<lambda>w. vert_relative_pos (unit_square 0 0) w = Inr 0) (verts (unit_square 2 0))
   \<and> relative_pos (unit_square 0 0) (unit_square 2 0) = Inr 1
   \<and> vert_relative_pos (unit_square 0 0) (0, 0, - 3) = Inr (- 1)
   \<and> vert_relative_pos (unit_square 0 0) (0, 0, 3) = Inr 1
   \<and> relative_pos (unit_square 0 0) wall = Inr 0
   \<and> verts needle \<noteq> [] \<and> normal needle = (0, 0, 0)
   \<and> vert_relative_pos needle (0, 0, 3) = Inr (- 1)
   \<and> relative_pos needle wall = Inr (- 1)"
proof -
  have h: "verts (unit_square 0 0) \<noteq> []" by (simp add: unit_square_def)
  have n: "normal (unit_square 0 0) \<noteq> (0, 0, 0)" by (simp add: unit_square_def)
  have on: "\<forall>w \<in> set (verts (unit_square 2 0)). vert_relative_pos (unit_square 0 0) w = Inr 0"
    by (simp add: unit_square_def [of 2] unit_square_on_plane)
  have d: "dot (vsub (x, y, z) (hd (verts (unit_square 0 0)))) (normal (unit_square 0 0))
             / vlength (normal (unit_square 0 0)) = z"
    for x y z by (simp add: unit_square_def vlength_def)
  have v: "vert_relative_pos (unit_square 0 0) (x, y, z) =
             Inr (if \<bar>z\<bar> < 1 / 1000 then 0 else if z > 0 then 1 else - 1)" for x y z
    using relative_pos_classification [OF h, of "(x, y, z)" wall] n by (simp add: d Let_def)
  have 1: "relative_pos (unit_square 0 0) (unit_square 2 0) = Inr 1"
    using relative_pos_classification [OF h, of "(0, 0, 0)" "unit_square 2 0"] on by blast
  have 2: "relative_pos (unit_square 0 0) wall = Inr 0"
    using relative_pos_classification [OF h, of "(0, 0, 0)" wall] by (simp add: wall_def v)
  have hn: "verts needle \<noteq> []" and nn: "normal needle = (0, 0, 0)"
    by (simp_all add: needle_def)
  have vn: "vert_relative_pos needle w = Inr (- 1)" for w
    using relative_pos_classification [OF hn, of w wall] nn by simp
  have "relative_pos needle wall =
           Inr (if \<forall>w \<in> set (verts wall). vert_relative_pos needle w \<noteq> Inr (- 1) then 1
                else if \<forall>w \<in> set (verts wall). vert_relative_pos needle w \<noteq> Inr 1 then - 1
                else 0)"
    using relative_pos_classification [OF hn, of "(0, 0, 0)" wall] by blast
  moreover have "(0, 0, 1) \<in> set (verts wall)" by (simp add: wall_def)
  then have "\<not> (\<forall>w \<in> set (verts wall). vert_relative_pos needle w \<noteq> Inr (- 1))"
    using vn by blast
  moreover have "\<forall>w \<in> set (verts wall). vert_relative_pos needle w \<noteq> Inr 1"
    by (simp add: vn)
  ultimately have 3: "relative_pos needle wall = Inr (- 1)"
    by (simp only: if_P if_not_P if_False)
  show ?thesis
    using h n on 1 2 3 hn nn v [of 0 0 "- 3"] v [of 0 0 3] vn [of "(0, 0, 3)"]
    by (simp add: list_all_iff)
qed

section \<open>Cutting: theorems\<close>

lemma vert_relative_pos_bool_eq:
  assumes "verts Q \<noteq> []"
  shows "vert_relative_pos_bool Q v = Inr (dot (vsub v (hd (verts Q))) (normal Q) \<ge> 0)"
  using assms by (cases "verts Q") (simp_all add: vert_relative_pos_bool_def Let_def)

lemma cut_step_total:
  assumes "verts Q \<noteq> []"
  shows "\<exists>cur' f' b'. cut_step Q vs i (cur, f, b) = Inr (cur', f', b')
           \<and> set f \<subseteq> set f' \<and> set b \<subseteq> set b'
           \<and> (vert_relative_pos_bool Q (vs ! i) = Inr True \<longrightarrow> vs ! i \<in> set f')
           \<and> (vert_relative_pos_bool Q (vs ! i) = Inr False \<longrightarrow> vs ! i \<in> set b')"
proof -
  obtain co rest where co: "verts Q = co # rest" using assms by (cases "verts Q") auto
  show ?thesis
    by (auto simp: cut_step_def Let_def co vert_relative_pos_bool_eq [OF assms]
             split: option.splits)
qed

lemma cut_loop_total:
  assumes "verts Q \<noteq> []"
  shows "\<exists>cur' f' b'. cut_loop Q vs js (cur, f, b) = Inr (cur', f', b')
           \<and> set f \<subseteq> set f' \<and> set b \<subseteq> set b'
           \<and> (\<forall>j \<in> set js.
                 (vert_relative_pos_bool Q (vs ! j) = Inr True \<longrightarrow> vs ! j \<in> set f')
               \<and> (vert_relative_pos_bool Q (vs ! j) = Inr False \<longrightarrow> vs ! j \<in> set b'))"
proof (induction js arbitrary: cur f b)
  case Nil
  show ?case by simp
next
  case (Cons j js)
  obtain c1 f1 b1 where s: "cut_step Q vs j (cur, f, b) = Inr (c1, f1, b1)"
    and sub: "set f \<subseteq> set f1" "set b \<subseteq> set b1"
    and here: "vert_relative_pos_bool Q (vs ! j) = Inr True \<longrightarrow> vs ! j \<in> set f1"
              "vert_relative_pos_bool Q (vs ! j) = Inr False \<longrightarrow> vs ! j \<in> set b1"
    using cut_step_total [OF assms, of vs j cur f b] by blast
  obtain c2 f2 b2 where l: "cut_loop Q vs js (c1, f1, b1) = Inr (c2, f2, b2)"
    and sub2: "set f1 \<subseteq> set f2" "set b1 \<subseteq> set b2"
    and rest: "\<forall>j \<in> set js.
                 (vert_relative_pos_bool Q (vs ! j) = Inr True \<longrightarrow> vs ! j \<in> set f2)
               \<and> (vert_relative_pos_bool Q (vs ! j) = Inr False \<longrightarrow> vs ! j \<in> set b2)"
    using Cons.IH [of c1 f1 b1] by blast
  have "cut_loop Q vs (j # js) (cur, f, b) = Inr (c2, f2, b2)" using s l by simp
  moreover have "set f \<subseteq> set f2" "set b \<subseteq> set b2" using sub sub2 by auto
  moreover have "\<forall>k \<in> set (j # js).
                 (vert_relative_pos_bool Q (vs ! k) = Inr True \<longrightarrow> vs ! k \<in> set f2)
               \<and> (vert_relative_pos_bool Q (vs ! k) = Inr False \<longrightarrow> vs ! k \<in> set b2)"
    using here sub2 rest by auto
  ultimately show ?case by blast
qed

lemma cut_rings_total:
  assumes "verts Q \<noteq> []" and "verts P \<noteq> []"
  shows "\<exists>front_ring back_ring. cut_rings Q P = Inr (front_ring, back_ring)
           \<and> (\<forall>w \<in> set (verts P).
                 (vert_relative_pos_bool Q w = Inr True \<longrightarrow> w \<in> set front_ring)
               \<and> (vert_relative_pos_bool Q w = Inr False \<longrightarrow> w \<in> set back_ring))"
proof -
  let ?vs = "verts P"
  let ?c = "dot (vsub (last ?vs) (hd (verts Q))) (normal Q) \<ge> 0"
  obtain c f b where l: "cut_loop Q ?vs [0 ..< length ?vs] (?c, [], []) = Inr (c, f, b)"
    and r: "\<forall>j \<in> set [0 ..< length ?vs].
                 (vert_relative_pos_bool Q (?vs ! j) = Inr True \<longrightarrow> ?vs ! j \<in> set f)
               \<and> (vert_relative_pos_bool Q (?vs ! j) = Inr False \<longrightarrow> ?vs ! j \<in> set b)"
    using cut_loop_total [OF assms(1), of ?vs "[0 ..< length ?vs]" ?c "[]" "[]"] by blast
  have "cut_rings Q P = Inr (f, b)"
    using assms(2) l by (simp add: cut_rings_def Let_def vert_relative_pos_bool_eq [OF assms(1)])
  moreover have "\<forall>w \<in> set ?vs.
                 (vert_relative_pos_bool Q w = Inr True \<longrightarrow> w \<in> set f)
               \<and> (vert_relative_pos_bool Q w = Inr False \<longrightarrow> w \<in> set b)"
  proof
    fix w assume "w \<in> set ?vs"
    then obtain j where "j < length ?vs" "?vs ! j = w" by (auto simp: in_set_conv_nth)
    then show "(vert_relative_pos_bool Q w = Inr True \<longrightarrow> w \<in> set f)
               \<and> (vert_relative_pos_bool Q w = Inr False \<longrightarrow> w \<in> set b)"
      using r by auto
  qed
  ultimately show ?thesis by blast
qed

lemma fold_add_sum_list: "fold (\<lambda>i s. s + g i) js (a::real) = a + sum_list (map g js)"
  by (induction js arbitrary: a) simp_all

lemma zip_tl_map_nth:
  "map (\<lambda>i. h (vs ! i) (vs ! (i + 1))) [0 ..< length vs - 1] = map (\<lambda>(a, c). h a c) (zip vs (tl vs))"
  by (rule nth_equalityI) (simp_all add: nth_tl)

lemma is_fragment_iff:
  "is_fragment p \<longleftrightarrow> length (verts p) < 3 \<or> coordinate_deltas (verts p) < 1 / 1000000"
proof -
  let ?h = "\<lambda>a c. \<bar>vx a - vx c\<bar> + \<bar>vy a - vy c\<bar> + \<bar>vz a - vz c\<bar>"
  have f: "fold (\<lambda>i s. s + ?h (verts p ! i) (verts p ! (i + 1))) [0 ..< length (verts p) - 1] 0
           = coordinate_deltas (verts p)"
    unfolding coordinate_deltas_def fold_add_sum_list zip_tl_map_nth [symmetric] by simp
  have nn: "0 \<le> coordinate_deltas (verts p)"
    unfolding coordinate_deltas_def by (rule sum_list_nonneg) auto
  show ?thesis
    unfolding is_fragment_def Let_def f POLYGON_CULL_THRESHOLD_def using nn by auto
qed

lemma cull_result:
  "\<exists>r. cull p = Inr r
      \<and> (r = None \<longleftrightarrow> length (verts p) < 3 \<or> coordinate_deltas (verts p) < 1 / 1000000)
      \<and> (\<forall>f. r = Some f \<longrightarrow> verts f = verts p \<and> rgb_color f = rgb_color p
              \<and> stroke_color f = stroke_color p \<and> opacity f = opacity p
              \<and> stroke_opacity f = stroke_opacity p \<and> normal f = normal p
              \<and> depth f = depth p \<and> marked f = marked p \<and> bounds f \<noteq> None)"
proof (cases "is_fragment p")
  case True
  then show ?thesis using is_fragment_iff [of p] by (simp add: cull_def)
next
  case False
  then have "\<not> length (verts p) < 3" using is_fragment_iff [of p] by simp
  then obtain v0 rest where "verts p = v0 # rest" by (cases "verts p") auto
  then show ?thesis using False is_fragment_iff [of p]
    by (simp add: cull_def recalculate_bounds_def)
qed

lemma cut_conflicting_result:
  assumes "verts Q \<noteq> []" and "verts P \<noteq> []"
  shows "\<exists>front_ring back_ring rp rq.
           cut_rings Q P = Inr (front_ring, back_ring) \<and> cut_conflicting Q P = Inr (rp, rq)
         \<and> (rp = None \<longleftrightarrow> length front_ring < 3 \<or> coordinate_deltas front_ring < 1 / 1000000)
         \<and> (rq = None \<longleftrightarrow> length back_ring < 3 \<or> coordinate_deltas back_ring < 1 / 1000000)
         \<and> (\<forall>f. rp = Some f \<longrightarrow> verts f = front_ring \<and> rgb_color f = rgb_color P
              \<and> stroke_color f = stroke_color P \<and> opacity f = opacity P
              \<and> stroke_opacity f = stroke_opacity P \<and> normal f = normal P)
         \<and> (\<forall>f. rq = Some f \<longrightarrow> verts f = back_ring \<and> rgb_color f = rgb_color P
              \<and> stroke_color f = stroke_color P \<and> opacity f = opacity P
              \<and> stroke_opacity f = stroke_opacity P \<and> normal f = normal P)"
proof -
  obtain fr bk where r: "cut_rings Q P = Inr (fr, bk)"
    using cut_rings_total [OF assms] by blast
  obtain rp where p: "cull (P\<lparr>verts := fr\<rparr>) = Inr rp"
    and p1: "rp = None \<longleftrightarrow> length fr < 3 \<or> coordinate_deltas fr < 1 / 1000000"
    and p2: "\<forall>f. rp = Some f \<longrightarrow> verts f = fr \<and> rgb_color f = rgb_color P
              \<and> stroke_color f = stroke_color P \<and> opacity f = opacity P
              \<and> stroke_opacity f = stroke_opacity P \<and> normal f = normal P"
    using cull_result [of "P\<lparr>verts := fr\<rparr>"] by auto
  obtain rq where q: "cull (P\<lparr>verts := fr, verts := bk\<rparr>) = Inr rq"
    and q1: "rq = None \<longleftrightarrow> length bk < 3 \<or> coordinate_deltas bk < 1 / 1000000"
    and q2: "\<forall>f. rq = Some f \<longrightarrow> verts f = bk \<and> rgb_color f = rgb_color P
              \<and> stroke_color f = stroke_color P \<and> opacity f = opacity P
              \<and> stroke_opacity f = stroke_opacity P \<and> normal f = normal P"
    using cull_result [of "P\<lparr>verts := fr, verts := bk\<rparr>"] by auto
  have "cut_conflicting Q P = Inr (rp, rq)"
    using r p q by (simp add: cut_conflicting_def Let_def)
  with r p1 p2 q1 q2 show ?thesis by blast
qed

lemma wall_rings:
  "cut_rings (unit_square 0 0) wall =
     Inr ([(0, 0, 1 / 1000), (0, 0, 1), (1, 0, 1), (1, 0, 1 / 1000)],
          [(0, 0, - 1 / 1000), (1, 0, - 1 / 1000), (1, 0, - 1), (0, 0, - 1)])"
  by (simp add: cut_rings_def cut_step_def unit_square_def wall_def vert_relative_pos_bool_def
        intersect_line_plane_def FLT_EPSILON_def normalized_def vlength_def
        POLYGON_CUT_PRECISION_def Let_def upt_conv_Cons)

lemma sliver_rings:
  "cut_rings (unit_square 0 0) sliver =
     Inr ([(0, 0, 1 / 100000000), (1, 0, - 1 / 100000000)],
          [(0, 0, 1 / 100000000), (1, 0, - 1 / 100000000), (0, 1, - 1 / 100000000)])"
  by (simp add: cut_rings_def cut_step_def unit_square_def sliver_def vert_relative_pos_bool_def
        intersect_line_plane_def FLT_EPSILON_def Let_def upt_conv_Cons)

text \<open>
  Claim C4. When \<open>cut_conflicting\<close> cuts a polygon \<open>P\<close> (with a vertex) by the plane of a
  polygon \<open>Q\<close> (with a vertex), it returns a pair; a component is \<open>None\<close> exactly when
  the vertex ring built for that fragment has fewer than 3 vertices or its summed
  absolute coordinate deltas are below \<open>10\<^sup>-\<^sup>6\<close>; a fragment that is returned has that
  ring as its vertices and the fill colour, stroke colour, opacity and stroke opacity
  of \<open>P\<close>.
\<close>

theorem cut_conflicting_fragments:
  assumes "verts Q \<noteq> []" and "verts P \<noteq> []"
  shows "\<exists>front_ring back_ring rp rq.
           cut_rings Q P = Inr (front_ring, back_ring) \<and> cut_conflicting Q P = Inr (rp, rq)
         \<and> (rp = None \<longleftrightarrow> length front_ring < 3 \<or> coordinate_deltas front_ring < 1 / 1000000)
         \<and> (rq = None \<longleftrightarrow> length back_ring < 3 \<or> coordinate_deltas back_ring < 1 / 1000000)
         \<and> (\<forall>f. rp = Some f \<longrightarrow> verts f = front_ring \<and> rgb_color f = rgb_color P
              \<and> stroke_color f = stroke_color P \<and> opacity f = opacity P
              \<and> stroke_opacity f = stroke_opacity P)
         \<and> (\<forall>f. rq = Some f \<longrightarrow> verts f = back_ring \<and> rgb_color f = rgb_color P
              \<and> stroke_color f = stroke_color P \<and> opacity f = opacity P
              \<and> stroke_opacity f = stroke_opacity P)"
  using cut_conflicting_result [OF assms] by blast

theorem cut_conflicting_fragments_witness:
  "verts (unit_square 0 0) \<noteq> [] \<and> verts wall \<noteq> []
   \<and> (\<exists>f g. cut_conflicting (unit_square 0 0) wall = Inr (Some f, Some g)
         \<and> verts f = [(0, 0, 1 / 1000), (0, 0, 1), (1, 0, 1), (1, 0, 1 / 1000)]
         \<and> verts g = [(0, 0, - 1 / 1000), (1, 0, - 1 / 1000), (1, 0, - 1), (0, 0, - 1)]
         \<and> rgb_color f = (0, 0, 1) \<and> stroke_color f = (0, 1, 1) \<and> opacity f = 1 / 2
         \<and> rgb_color g = (0, 0, 1) \<and> stroke_color g = (0, 1, 1) \<and> opacity g = 1 / 2)"
proof -
  have h: "verts (unit_square 0 0) \<noteq> []" "verts wall \<noteq> []"
    by (simp_all add: unit_square_def wall_def)
  from cut_conflicting_fragments [OF h] obtain fr bk rp rq where
    all: "cut_rings (unit_square 0 0) wall = Inr (fr, bk)
         \<and> cut_conflicting (unit_square 0 0) wall = Inr (rp, rq)
         \<and> (rp = None \<longleftrightarrow> length fr < 3 \<or> coordinate_deltas fr < 1 / 1000000)
         \<and> (rq = None \<longleftrightarrow> length bk < 3 \<or> coordinate_deltas bk < 1 / 1000000)
         \<and> (\<forall>f. rp = Some f \<longrightarrow> verts f = fr \<and> rgb_color f = rgb_color wall
              \<and> stroke_color f = stroke_color wall \<and> opacity f = opacity wall
              \<and> stroke_opacity f = stroke_opacity wall)
         \<and> (\<forall>f. rq = Some f \<longrightarrow> verts f = bk \<and> rgb_color f = rgb_color wall
              \<and> stroke_color f = stroke_color wall \<and> opacity f = opacity wall
              \<and> stroke_opacity f = stroke_opacity wall)"
    by (elim exE) (rule that)
  have fr: "fr = [(0, 0, 1 / 1000), (0, 0, 1), (1, 0, 1), (1, 0, 1 / 1000)]"
    and bk: "bk = [(0, 0, - 1 / 1000), (1, 0, - 1 / 1000), (1, 0, - 1), (0, 0, - 1)]"
    using all by (simp_all add: wall_rings)
  have c: "cut_conflicting (unit_square 0 0) wall = Inr (rp, rq)" using all by simp
  have "rp \<noteq> None"
    using all by (simp add: fr coordinate_deltas_def)
  then obtain f where f: "rp = Some f" by auto
  have "rq \<noteq> None"
    using all by (simp add: bk coordinate_deltas_def)
  then obtain g where g: "rq = Some g" by auto
  have sf: "verts f = fr \<and> rgb_color f = rgb_color wall \<and> stroke_color f = stroke_color wall
            \<and> opacity f = opacity wall"
    using all f by simp
  have sg: "verts g = bk \<and> rgb_color g = rgb_color wall \<and> stroke_color g = stroke_color wall
            \<and> opacity g = opacity wall"
    using all g by simp
  have w: "rgb_color wall = (0, 0, 1)" "stroke_color wall = (0, 1, 1)" "opacity wall = 1 / 2"
    by (simp_all add: wall_def)
  show ?thesis
    using h c f g sf sg w fr bk by simp
qed

section \<open>The loop of the cut: theorems\<close>

lemma dot_vadd: "dot (vsub (vadd a b) c) n = dot (vsub a c) n + dot b n"
  by (cases a, cases b, cases c, cases n) (simp add: algebra_simps)

lemma dot_vsub: "dot (vsub (vsub a b) c) n = dot (vsub a c) n - dot b n"
  by (cases a, cases b, cases c, cases n) (simp add: algebra_simps)

lemma dot_vscale: "dot (vscale a k) n = k * dot a n"
  by (cases a, cases n) (simp add: algebra_simps)

lemma dot_commute: "dot a n = dot n a"
  by (cases a, cases n) (simp add: algebra_simps)

lemma dot_diff: "dot n (vsub b a) = dot (vsub b c) n - dot (vsub a c) n"
  by (cases a, cases b, cases c, cases n) (simp add: algebra_simps)

lemma dot_self_nonneg: "0 \<le> dot u u"
  by (cases u) simp

lemma vlength_pos: "dot u n \<noteq> 0 \<Longrightarrow> 0 < vlength u"
proof -
  assume a: "dot u n \<noteq> 0"
  have "u \<noteq> (0, 0, 0)" using a by (cases n) auto
  then have "dot u u \<noteq> 0" by (simp add: dot_self_eq_0_iff)
  then have "0 < dot u u" using dot_self_nonneg [of u] by simp
  then show ?thesis by (simp add: vlength_def)
qed

text \<open>The nudge \<^verbatim>\<open>intersect_dir\<close> points to the side of the plane where \<open>u\<close> points.\<close>

lemma intersect_dir_dot:
  assumes "dot u n \<noteq> 0"
  shows "dot (vscale (normalized u) (1 / POLYGON_CUT_PRECISION)) n = dot u n / (vlength u * 1000)"
proof -
  have p: "0 < vlength u" using vlength_pos [OF assms] .
  then show ?thesis
    by (simp add: normalized_def dot_vscale POLYGON_CUT_PRECISION_def)
qed

lemma intersect_line_plane_Some:
  assumes "intersect_line_plane la lb co n = Some I"
  shows "dot (vsub I co) n = 0" and "FLT_EPSILON < \<bar>dot (vsub lb co) n - dot (vsub la co) n\<bar>"
proof -
  let ?d = "dot n (vsub lb la)"
  have d: "FLT_EPSILON < \<bar>?d\<bar>" and I: "I = vadd la (vscale (vsub lb la) (- (dot n (vsub la co)) / ?d))"
    using assms by (auto simp: intersect_line_plane_def Let_def split: if_splits)
  show "FLT_EPSILON < \<bar>dot (vsub lb co) n - dot (vsub la co) n\<bar>"
    using d by (simp add: dot_diff [of n lb la co])
  have nz: "?d \<noteq> 0" using d by (auto simp: FLT_EPSILON_def)
  have "dot (vsub I co) n = dot (vsub la co) n + (- (dot n (vsub la co)) / ?d) * dot (vsub lb la) n"
    by (simp add: I dot_vadd dot_vscale)
  also have "\<dots> = 0" using nz by (simp add: dot_commute [of _ n])
  finally show "dot (vsub I co) n = 0" .
qed

lemma intersect_line_plane_None:
  assumes "intersect_line_plane la lb co n = None"
  shows "\<bar>dot (vsub lb co) n - dot (vsub la co) n\<bar> \<le> FLT_EPSILON"
proof -
  have "\<not> FLT_EPSILON < \<bar>dot n (vsub lb la)\<bar>"
    using assms by (auto simp: intersect_line_plane_def Let_def split: if_splits)
  then show ?thesis by (simp add: dot_diff [of n lb la co])
qed

lemma normalized_z: "c \<noteq> 0 \<Longrightarrow> normalized (0, 0, c) = (0, 0, c / \<bar>c\<bar>)"
  by (simp add: normalized_def vlength_def)

lemma vert_relative_pos_bool_signed_dot:
  assumes "verts Q \<noteq> []"
  shows "vert_relative_pos_bool Q v = Inr (0 \<le> signed_dot Q v)"
  by (simp add: vert_relative_pos_bool_eq [OF assms] signed_dot_def)

text \<open>What one pass of the loop appends to the two rings.\<close>

lemma cut_step_appends:
  assumes "verts Q \<noteq> []"
  shows "\<exists>f1 b1. cut_step Q vs i (cur, f, b) = Inr (0 \<le> signed_dot Q (vs ! i), f @ f1, b @ b1)
           \<and> (cur = (0 \<le> signed_dot Q (vs ! i)) \<longrightarrow>
                 (if cur then f1 = [vs ! i] \<and> b1 = [] else f1 = [] \<and> b1 = [vs ! i]))
           \<and> (if 0 \<le> signed_dot Q (vs ! i) then f1 \<noteq> [] \<and> last f1 = vs ! i
               else b1 \<noteq> [] \<and> last b1 = vs ! i)"
proof -
  obtain co rest where co: "verts Q = co # rest" using assms by (cases "verts Q") auto
  have vb: "vert_relative_pos_bool Q (vs ! i) = Inr (0 \<le> signed_dot Q (vs ! i))"
    by (rule vert_relative_pos_bool_signed_dot [OF assms])
  show ?thesis
    by (cases "0 \<le> signed_dot Q (vs ! i)"; cases cur;
        cases "intersect_line_plane (vs ! i) (vs ! nat ((int i - 1) mod int (length vs))) co (normal Q)")
      (simp_all add: cut_step_def vb co Let_def)
qed

lemma cut_loop_appends:
  assumes q: "verts Q \<noteq> []"
  shows "\<exists>cur' f1 b1. cut_loop Q vs js (cur, f, b) = Inr (cur', f @ f1, b @ b1)"
proof (induction js arbitrary: cur f b)
  case Nil
  then show ?case by simp
next
  case (Cons j js)
  obtain f1 b1 where s: "cut_step Q vs j (cur, f, b) = Inr (0 \<le> signed_dot Q (vs ! j), f @ f1, b @ b1)"
    using cut_step_appends [OF q, of vs j cur f b] by blast
  obtain cur' f2 b2 where
    l: "cut_loop Q vs js (0 \<le> signed_dot Q (vs ! j), f @ f1, b @ b1) = Inr (cur', (f @ f1) @ f2, (b @ b1) @ b2)"
    using Cons.IH by blast
  show ?case
    by (rule exI [of _ cur'], rule exI [of _ "f1 @ f2"], rule exI [of _ "b1 @ b2"])
       (simp add: s l)
qed

lemma cut_loop_append_list:
  "cut_loop Q vs (xs @ ys) st =
     (case cut_loop Q vs xs st of Inl e \<Rightarrow> Inl e | Inr st' \<Rightarrow> cut_loop Q vs ys st')"
  by (induction xs arbitrary: st) (simp_all split: sum.splits)

lemma cut_step_inv:
  assumes q: "verts Q \<noteq> []" and i: "i < length vs"
    and inv: "cut_inv Q vs i st" and s: "cut_step Q vs i st = Inr st'"
  shows "cut_inv Q vs (Suc i) st'"
proof -
  obtain cur fr bk where st: "st = (cur, fr, bk)" by (cases st) auto
  obtain co rest where co: "verts Q = co # rest" using q by (cases "verts Q") auto
  let ?v = "vs ! i"
  let ?p = "vs ! nat ((int i - 1) mod int (length vs))"
  let ?n = "normal Q"
  let ?dir = "vscale (normalized (vsub ?p ?v)) (1 / POLYGON_CUT_PRECISION)"
  have sd: "signed_dot Q w = dot (vsub w co) ?n" for w by (simp add: signed_dot_def co)
  have nx: "vs ! nat ((int (Suc i) - 1) mod int (length vs)) = ?v" using i by simp
  have c: "cur \<longleftrightarrow> 0 \<le> dot (vsub ?p co) ?n"
    and f: "\<forall>v \<in> set fr. - FLT_EPSILON \<le> dot (vsub v co) ?n"
    and b: "\<forall>v \<in> set bk. dot (vsub v co) ?n \<le> FLT_EPSILON"
    using inv by (simp_all add: cut_inv_def st sd)
  have e: "0 < FLT_EPSILON" by (simp add: FLT_EPSILON_def)
  have vb: "vert_relative_pos_bool Q ?v = Inr (0 \<le> dot (vsub ?v co) ?n)"
    by (simp add: vert_relative_pos_bool_def co Let_def)
  have goal: "cut_inv Q vs (Suc i) (c', f', b')"
    if "c' \<longleftrightarrow> 0 \<le> dot (vsub ?v co) ?n"
      and "\<forall>v \<in> set f'. - FLT_EPSILON \<le> dot (vsub v co) ?n"
      and "\<forall>v \<in> set b'. dot (vsub v co) ?n \<le> FLT_EPSILON" for c' f' b'
    using that unfolding cut_inv_def nx by (simp add: sd)
  show ?thesis
  proof (cases "0 \<le> dot (vsub ?v co) ?n")
    case vf: True
    show ?thesis
    proof (cases cur)
      case True
      have "st' = (cur, fr @ [?v], bk)"
        using s vf True by (simp add: cut_step_def st vb Let_def)
      then show ?thesis using goal [of cur "fr @ [?v]" bk] vf True f b e by auto
    next
      case False
      then have pb: "dot (vsub ?p co) ?n < 0" using c by simp
      show ?thesis
      proof (cases "intersect_line_plane ?v ?p co ?n")
        case None
        have "st' = (True, fr @ [?v], bk @ [?v])"
          using s vf False None by (simp add: cut_step_def st vb Let_def co)
        moreover have "dot (vsub ?v co) ?n \<le> FLT_EPSILON"
          using intersect_line_plane_None [OF None] pb vf by simp
        ultimately show ?thesis using goal [of True "fr @ [?v]" "bk @ [?v]"] vf f b e by auto
      next
        case (Some I)
        have st': "st' = (True, fr @ [vsub I ?dir] @ [?v], bk @ [vadd I ?dir])"
          using s vf False Some by (simp add: cut_step_def st vb Let_def co)
        have I0: "dot (vsub I co) ?n = 0" using intersect_line_plane_Some(1) [OF Some] .
        have d: "dot (vsub ?p ?v) ?n < 0"
          using pb vf dot_diff [of ?n ?p ?v co] by (simp add: dot_commute [of _ ?n])
        then have "dot ?dir ?n = dot (vsub ?p ?v) ?n / (vlength (vsub ?p ?v) * 1000)"
          by (simp add: intersect_dir_dot)
        moreover have "0 < vlength (vsub ?p ?v)" using d vlength_pos [of "vsub ?p ?v" ?n] by simp
        ultimately have dn: "dot ?dir ?n < 0" using d by (simp add: divide_neg_pos)
        have 1: "- FLT_EPSILON \<le> dot (vsub (vsub I ?dir) co) ?n"
          using dn e by (simp add: dot_vsub I0)
        have 2: "dot (vsub (vadd I ?dir) co) ?n \<le> FLT_EPSILON"
          using dn e by (simp add: dot_vadd I0)
        show ?thesis
          unfolding st'
          using goal [of True "fr @ [vsub I ?dir] @ [?v]" "bk @ [vadd I ?dir]"] vf f b e 1 2
          by auto
      qed
    qed
  next
    case vf: False
    show ?thesis
    proof (cases cur)
      case False
      have "st' = (cur, fr, bk @ [?v])"
        using s vf False by (simp add: cut_step_def st vb Let_def)
      then show ?thesis using goal [of cur fr "bk @ [?v]"] vf False f b e by auto
    next
      case True
      then have pb: "0 \<le> dot (vsub ?p co) ?n" using c by simp
      show ?thesis
      proof (cases "intersect_line_plane ?v ?p co ?n")
        case None
        have "st' = (False, fr @ [?v], bk @ [?v])"
          using s vf True None by (simp add: cut_step_def st vb Let_def co)
        moreover have "- FLT_EPSILON \<le> dot (vsub ?v co) ?n"
          using intersect_line_plane_None [OF None] pb vf by simp
        ultimately show ?thesis using goal [of False "fr @ [?v]" "bk @ [?v]"] vf f b e by auto
      next
        case (Some I)
        have st': "st' = (False, fr @ [vadd I ?dir], bk @ [vsub I ?dir] @ [?v])"
          using s vf True Some by (simp add: cut_step_def st vb Let_def co)
        have I0: "dot (vsub I co) ?n = 0" using intersect_line_plane_Some(1) [OF Some] .
        have d: "0 < dot (vsub ?p ?v) ?n"
          using pb vf dot_diff [of ?n ?p ?v co] by (simp add: dot_commute [of _ ?n])
        then have "dot ?dir ?n = dot (vsub ?p ?v) ?n / (vlength (vsub ?p ?v) * 1000)"
          by (simp add: intersect_dir_dot)
        moreover have "0 < vlength (vsub ?p ?v)" using d vlength_pos [of "vsub ?p ?v" ?n] by simp
        ultimately have dn: "0 < dot ?dir ?n" using d by simp
        have 1: "- FLT_EPSILON \<le> dot (vsub (vadd I ?dir) co) ?n"
          using dn e by (simp add: dot_vadd I0)
        have 2: "dot (vsub (vsub I ?dir) co) ?n \<le> FLT_EPSILON"
          using dn e by (simp add: dot_vsub I0)
        show ?thesis
          unfolding st'
          using goal [of False "fr @ [vadd I ?dir]" "bk @ [vsub I ?dir] @ [?v]"] vf f b e 1 2
          by auto
      qed
    qed
  qed
qed

lemma cut_loop_inv:
  assumes q: "verts Q \<noteq> []"
  shows "i + k \<le> length vs \<Longrightarrow> cut_inv Q vs i st \<Longrightarrow> cut_loop Q vs [i ..< i + k] st = Inr st'
         \<Longrightarrow> cut_inv Q vs (i + k) st'"
proof (induction k arbitrary: i st)
  case 0
  then show ?case by simp
next
  case (Suc k)
  have i: "i < length vs" using Suc.prems(1) by simp
  have u: "[i ..< i + Suc k] = i # [Suc i ..< Suc i + k]" by (simp add: upt_conv_Cons)
  obtain cur f b where st: "st = (cur, f, b)" by (cases st) auto
  obtain st1 where s: "cut_step Q vs i st = Inr st1"
    using cut_step_total [OF q, of vs i cur f b] st by auto
  have l: "cut_loop Q vs [Suc i ..< Suc i + k] st1 = Inr st'"
    using Suc.prems(3) s unfolding u by simp
  have "cut_inv Q vs (Suc i) st1" by (rule cut_step_inv [OF q i Suc.prems(2) s])
  moreover have "Suc i + k \<le> length vs" using Suc.prems(1) by simp
  ultimately have "cut_inv Q vs (Suc i + k) st'" using Suc.IH l by blast
  then show ?case by simp
qed

lemma cut_inv_start:
  assumes "vs \<noteq> []"
  shows "cut_inv Q vs 0 (0 \<le> signed_dot Q (last vs), [], [])"
proof -
  have "nat ((int 0 - 1) mod int (length vs)) = length vs - 1"
    using assms by (cases vs) (simp_all add: zmod_minus1 nat_diff_distrib)
  then show ?thesis using assms by (simp add: cut_inv_def last_conv_nth)
qed

lemma cut_rings_loop:
  assumes q: "verts Q \<noteq> []" and p: "verts P \<noteq> []"
  shows "cut_rings Q P =
           (case cut_loop Q (verts P) [0 ..< length (verts P)]
                   (0 \<le> signed_dot Q (last (verts P)), [], []) of
              Inl e \<Rightarrow> Inl e
            | Inr (c, fr, bk) \<Rightarrow> Inr (fr, bk))"
  using p
  by (simp add: cut_rings_def Let_def vert_relative_pos_bool_signed_dot [OF q]
        split: sum.splits prod.splits)

lemma cut_rings_sides:
  assumes q: "verts Q \<noteq> []" and r: "cut_rings Q P = Inr (fr, bk)"
  shows "(\<forall>v \<in> set fr. - FLT_EPSILON \<le> signed_dot Q v)
       \<and> (\<forall>v \<in> set bk. signed_dot Q v \<le> FLT_EPSILON)"
proof -
  let ?vs = "verts P"
  have ne: "?vs \<noteq> []" using r by (auto simp: cut_rings_def Let_def split: if_splits)
  let ?c = "0 \<le> signed_dot Q (last ?vs)"
  obtain cur where l: "cut_loop Q ?vs [0 ..< 0 + length ?vs] (?c, [], []) = Inr (cur, fr, bk)"
    using r by (auto simp: cut_rings_loop [OF q ne] split: sum.splits prod.splits)
  have "cut_inv Q ?vs (0 + length ?vs) (cur, fr, bk)"
    by (rule cut_loop_inv [OF q _ cut_inv_start [OF ne] l]) simp
  then show ?thesis by (simp add: cut_inv_def)
qed

lemma unit_normal_dot: "vlength n = 1 \<Longrightarrow> dot n n = 1"
  by (simp add: vlength_def)

lemma vert_relative_pos_signed_dot:
  assumes q: "verts Q \<noteq> []" and u: "vlength (normal Q) = 1"
  shows "vert_relative_pos Q v =
           Inr (if \<bar>signed_dot Q v\<bar> < 1 / 1000 then 0 else if signed_dot Q v > 0 then 1 else - 1)"
  using q u unit_normal_dot [OF u] by (cases "verts Q")
    (simp_all add: vert_relative_pos_def distance_point_to_plane_def signed_dot_def
       PLANE_DISTANCE_THRESHOLD_def Let_def)

text \<open>The fragments that \<open>cut_conflicting\<close> makes of a polygon that is in collision with
  the plane of \<open>Q\<close>, for a unit normal of \<open>Q\<close>: the front fragment is classified in
  front of the plane and the back fragment behind it.\<close>

lemma cut_conflicting_sides:
  assumes q: "verts Q \<noteq> []" and u: "vlength (normal Q) = 1"
    and z: "relative_pos Q P = Inr 0" and c: "cut_conflicting Q P = Inr (rp, rq)"
  shows "(\<forall>f. rp = Some f \<longrightarrow> relative_pos Q f = Inr 1 \<and> normal f = normal P \<and> verts f \<noteq> [])
       \<and> (\<forall>g. rq = Some g \<longrightarrow> relative_pos Q g = Inr (- 1) \<and> normal g = normal P \<and> verts g \<noteq> [])"
proof -
  have p: "verts P \<noteq> []" using z by (auto simp: relative_pos_eq [OF q] split: if_splits)
  from cut_conflicting_result [OF q p] obtain fr bk rp' rq' where
    r: "cut_rings Q P = Inr (fr, bk)" and c': "cut_conflicting Q P = Inr (rp', rq')"
    and n1: "rp' = None \<longleftrightarrow> length fr < 3 \<or> coordinate_deltas fr < 1 / 1000000"
    and n2: "rq' = None \<longleftrightarrow> length bk < 3 \<or> coordinate_deltas bk < 1 / 1000000"
    and v1: "\<forall>f. rp' = Some f \<longrightarrow> verts f = fr \<and> rgb_color f = rgb_color P
              \<and> stroke_color f = stroke_color P \<and> opacity f = opacity P
              \<and> stroke_opacity f = stroke_opacity P \<and> normal f = normal P"
    and v2: "\<forall>f. rq' = Some f \<longrightarrow> verts f = bk \<and> rgb_color f = rgb_color P
              \<and> stroke_color f = stroke_color P \<and> opacity f = opacity P
              \<and> stroke_opacity f = stroke_opacity P \<and> normal f = normal P"
    by (elim exE conjE) (rule that)
  have eq: "rp' = rp" "rq' = rq" using c c' by simp_all
  have e: "FLT_EPSILON < 1 / 1000" by (simp add: FLT_EPSILON_def)
  from cut_rings_sides [OF q r]
  have sf: "\<forall>v \<in> set fr. - FLT_EPSILON \<le> signed_dot Q v"
    and sb: "\<forall>v \<in> set bk. signed_dot Q v \<le> FLT_EPSILON" by simp_all
  from cut_rings_total [OF q p] r
  have route: "\<forall>w \<in> set (verts P). vert_relative_pos_bool Q w = Inr False \<longrightarrow> w \<in> set bk"
    by auto
  have "\<not> (\<forall>w \<in> set (verts P). vert_relative_pos Q w \<noteq> Inr (- 1))"
    using z by (auto simp: relative_pos_eq [OF q] split: if_splits)
  then obtain w where w: "w \<in> set (verts P)" "vert_relative_pos Q w = Inr (- 1)" by blast
  have "signed_dot Q w < 0"
    using w(2) by (auto simp: vert_relative_pos_signed_dot [OF q u] split: if_splits)
  then have "vert_relative_pos_bool Q w = Inr False"
    by (simp add: vert_relative_pos_bool_eq [OF q] signed_dot_def)
  then have wb: "w \<in> set bk" using route w(1) by blast
  have side_f: "relative_pos Q f = Inr 1 \<and> normal f = normal P \<and> verts f \<noteq> []" if "rp = Some f" for f
  proof -
    have vf: "verts f = fr" "normal f = normal P" using v1 that eq by simp_all
    have "fr \<noteq> []" using n1 that eq by auto
    moreover have "\<forall>v \<in> set fr. vert_relative_pos Q v \<noteq> Inr (- 1)"
      using sf e by (auto simp: vert_relative_pos_signed_dot [OF q u])
    ultimately show ?thesis using vf by (simp add: relative_pos_eq [OF q])
  qed
  have side_b: "relative_pos Q g = Inr (- 1) \<and> normal g = normal P \<and> verts g \<noteq> []" if "rq = Some g" for g
  proof -
    have vg: "verts g = bk" "normal g = normal P" using v2 that eq by simp_all
    have "bk \<noteq> []" using n2 that eq by auto
    moreover have "\<forall>v \<in> set bk. vert_relative_pos Q v \<noteq> Inr 1"
      using sb e by (auto simp: vert_relative_pos_signed_dot [OF q u])
    moreover have "\<not> (\<forall>v \<in> set bk. vert_relative_pos Q v \<noteq> Inr (- 1))"
      using wb w(2) by blast
    ultimately show ?thesis using vg by (simp add: relative_pos_eq [OF q])
  qed
  show ?thesis using side_f side_b by blast
qed

section \<open>The side test of the cut: theorems\<close>

lemma band_rings:
  "cut_rings (unit_square 0 0) band =
     Inr ([(0, 0, 1 / 1000), (0, 0, 1 / 2000), (1, 0, 1 / 2000), (1, 0, 1 / 1000)],
          [(0, 0, - 1 / 1000), (1, 0, - 1 / 1000), (1, 0, - 1 / 2000), (0, 0, - 1 / 2000)])"
  by (simp add: cut_rings_def cut_step_def unit_square_def band_def vert_relative_pos_bool_def
        intersect_line_plane_def FLT_EPSILON_def normalized_z
        POLYGON_CUT_PRECISION_def Let_def upt_conv_Cons)

lemma notch_rings:
  "cut_rings (unit_square 0 0) notch =
     Inr ([(0, 0, 1 / 1000), (0, 0, 1), (1, 0, 1), (1, 0, 1 / 100000000), (2, 0, - 1 / 100000000)],
          [(0, 0, - 1 / 1000), (2, 0, - 1 / 100000000), (2, 0, - 1), (0, 0, - 1)])"
  by (simp add: cut_rings_def cut_step_def unit_square_def notch_def vert_relative_pos_bool_def
        intersect_line_plane_def FLT_EPSILON_def normalized_z
        POLYGON_CUT_PRECISION_def Let_def upt_conv_Cons)

text \<open>
  Claim C10. The side test of \<open>cut_conflicting\<close> is \<open>vert_relative_pos_bool\<close>: front
  exactly when \<open>signed_dot\<close>, the dot product of (vertex minus the first vertex of the
  plane polygon) with the plane normal, is \<open>\<ge> 0\<close>, with no tolerance. Every pass of the
  loop of \<open>cut_conflicting\<close> only appends to the two rings, and the ring of the side
  that this test gives the current vertex then ends with that vertex; when the
  vertex before was on the same side, nothing else is appended. So the two rings
  that \<open>cut_conflicting\<close> puts into the fragments it returns hold every vertex of the
  cut polygon with a dot product \<open>\<ge> 0\<close> (so every vertex exactly on the plane) on the
  front ring and every vertex with a negative one on the back ring, and they
  separate the sides: no vertex of the front ring has a dot product below
  \<open>- FLT_EPSILON\<close>, none of the back ring one above \<open>FLT_EPSILON\<close>. The classifier
  \<open>vert_relative_pos\<close> compares differently: two vertices 0.0005 below and above the
  plane are both On for it, and go to the back and to the front ring.
\<close>

theorem vert_relative_pos_bool_zero_tolerance:
  assumes "verts Q \<noteq> []" and "verts P \<noteq> []"
  shows "vert_relative_pos_bool Q v = Inr (signed_dot Q v \<ge> 0)
       \<and> signed_dot Q v = dot (vsub v (hd (verts Q))) (normal Q)
       \<and> (\<exists>f1 b1. cut_step Q vs i (cur, f, b) = Inr (0 \<le> signed_dot Q (vs ! i), f @ f1, b @ b1)
             \<and> (cur = (0 \<le> signed_dot Q (vs ! i)) \<longrightarrow>
                   (if cur then f1 = [vs ! i] \<and> b1 = [] else f1 = [] \<and> b1 = [vs ! i]))
             \<and> (if 0 \<le> signed_dot Q (vs ! i) then f1 \<noteq> [] \<and> last f1 = vs ! i
                 else b1 \<noteq> [] \<and> last b1 = vs ! i))
       \<and> (\<exists>front_ring back_ring rp rq.
             cut_rings Q P = Inr (front_ring, back_ring) \<and> cut_conflicting Q P = Inr (rp, rq)
           \<and> (rp = None \<longleftrightarrow> length front_ring < 3 \<or> coordinate_deltas front_ring < 1 / 1000000)
           \<and> (rq = None \<longleftrightarrow> length back_ring < 3 \<or> coordinate_deltas back_ring < 1 / 1000000)
           \<and> (\<forall>p. rp = Some p \<longrightarrow> verts p = front_ring)
           \<and> (\<forall>q. rq = Some q \<longrightarrow> verts q = back_ring)
           \<and> (\<forall>w \<in> set (verts P).
                 (signed_dot Q w \<ge> 0 \<longrightarrow> w \<in> set front_ring)
               \<and> (signed_dot Q w < 0 \<longrightarrow> w \<in> set back_ring))
           \<and> (\<forall>w \<in> set front_ring. - FLT_EPSILON \<le> signed_dot Q w)
           \<and> (\<forall>w \<in> set back_ring. signed_dot Q w \<le> FLT_EPSILON))
       \<and> vert_relative_pos (unit_square 0 0) (0, 0, - 1 / 2000) = Inr 0
       \<and> vert_relative_pos_bool (unit_square 0 0) (0, 0, - 1 / 2000) = Inr False
       \<and> vert_relative_pos (unit_square 0 0) (0, 0, 1 / 2000) = Inr 0
       \<and> vert_relative_pos_bool (unit_square 0 0) (0, 0, 1 / 2000) = Inr True"
proof (intro conjI)
  show "vert_relative_pos_bool Q v = Inr (signed_dot Q v \<ge> 0)"
    by (rule vert_relative_pos_bool_signed_dot [OF assms(1)])
  show "signed_dot Q v = dot (vsub v (hd (verts Q))) (normal Q)"
    by (simp add: signed_dot_def)
  show "\<exists>f1 b1. cut_step Q vs i (cur, f, b) = Inr (0 \<le> signed_dot Q (vs ! i), f @ f1, b @ b1)
             \<and> (cur = (0 \<le> signed_dot Q (vs ! i)) \<longrightarrow>
                   (if cur then f1 = [vs ! i] \<and> b1 = [] else f1 = [] \<and> b1 = [vs ! i]))
             \<and> (if 0 \<le> signed_dot Q (vs ! i) then f1 \<noteq> [] \<and> last f1 = vs ! i
                 else b1 \<noteq> [] \<and> last b1 = vs ! i)"
    by (rule cut_step_appends [OF assms(1)])
  show "\<exists>front_ring back_ring rp rq.
             cut_rings Q P = Inr (front_ring, back_ring) \<and> cut_conflicting Q P = Inr (rp, rq)
           \<and> (rp = None \<longleftrightarrow> length front_ring < 3 \<or> coordinate_deltas front_ring < 1 / 1000000)
           \<and> (rq = None \<longleftrightarrow> length back_ring < 3 \<or> coordinate_deltas back_ring < 1 / 1000000)
           \<and> (\<forall>p. rp = Some p \<longrightarrow> verts p = front_ring)
           \<and> (\<forall>q. rq = Some q \<longrightarrow> verts q = back_ring)
           \<and> (\<forall>w \<in> set (verts P).
                 (signed_dot Q w \<ge> 0 \<longrightarrow> w \<in> set front_ring)
               \<and> (signed_dot Q w < 0 \<longrightarrow> w \<in> set back_ring))
           \<and> (\<forall>w \<in> set front_ring. - FLT_EPSILON \<le> signed_dot Q w)
           \<and> (\<forall>w \<in> set back_ring. signed_dot Q w \<le> FLT_EPSILON)"
  proof -
    from cut_conflicting_result [OF assms] obtain fr bk rp rq where
      r: "cut_rings Q P = Inr (fr, bk)" and c: "cut_conflicting Q P = Inr (rp, rq)"
      and n1: "rp = None \<longleftrightarrow> length fr < 3 \<or> coordinate_deltas fr < 1 / 1000000"
      and n2: "rq = None \<longleftrightarrow> length bk < 3 \<or> coordinate_deltas bk < 1 / 1000000"
      and v1: "\<forall>f. rp = Some f \<longrightarrow> verts f = fr \<and> rgb_color f = rgb_color P
                \<and> stroke_color f = stroke_color P \<and> opacity f = opacity P
                \<and> stroke_opacity f = stroke_opacity P \<and> normal f = normal P"
      and v2: "\<forall>f. rq = Some f \<longrightarrow> verts f = bk \<and> rgb_color f = rgb_color P
                \<and> stroke_color f = stroke_color P \<and> opacity f = opacity P
                \<and> stroke_opacity f = stroke_opacity P \<and> normal f = normal P"
      by (elim exE conjE) (rule that)
    have route: "\<forall>w \<in> set (verts P).
                 (signed_dot Q w \<ge> 0 \<longrightarrow> w \<in> set fr) \<and> (signed_dot Q w < 0 \<longrightarrow> w \<in> set bk)"
      using cut_rings_total [OF assms] r
      unfolding vert_relative_pos_bool_signed_dot [OF assms(1)] by (simp add: not_le)
    have sides: "(\<forall>w \<in> set fr. - FLT_EPSILON \<le> signed_dot Q w)
               \<and> (\<forall>w \<in> set bk. signed_dot Q w \<le> FLT_EPSILON)"
      by (rule cut_rings_sides [OF assms(1) r])
    have w1: "\<forall>p. rp = Some p \<longrightarrow> verts p = fr" using v1 by blast
    have w2: "\<forall>q. rq = Some q \<longrightarrow> verts q = bk" using v2 by blast
    show ?thesis
      by (rule exI [of _ fr], rule exI [of _ bk], rule exI [of _ rp], rule exI [of _ rq])
         (use r c n1 n2 w1 w2 route sides in blast)
  qed
qed (simp_all add: unit_square_def vert_relative_pos_def vert_relative_pos_bool_def
       distance_point_to_plane_def vlength_def PLANE_DISTANCE_THRESHOLD_def)

theorem vert_relative_pos_bool_zero_tolerance_witness:
  "verts (unit_square 0 0) \<noteq> [] \<and> verts band \<noteq> []
   \<and> vert_relative_pos_bool (unit_square 0 0) (1 / 2, 1 / 2, 0) = Inr True
   \<and> list_all (\<lambda>w. vert_relative_pos (unit_square 0 0) w = Inr 0) (verts band)
   \<and> cut_step (unit_square 0 0) (verts band) 1 (True, [(0, 0, 1 / 1000), (0, 0, 1 / 2000)], [])
       = Inr (True, [(0, 0, 1 / 1000), (0, 0, 1 / 2000), (1, 0, 1 / 2000)], [])
   \<and> (\<exists>p q. cut_conflicting (unit_square 0 0) band = Inr (Some p, Some q)
        \<and> verts p = [(0, 0, 1 / 1000), (0, 0, 1 / 2000), (1, 0, 1 / 2000), (1, 0, 1 / 1000)]
        \<and> verts q = [(0, 0, - 1 / 1000), (1, 0, - 1 / 1000), (1, 0, - 1 / 2000), (0, 0, - 1 / 2000)])"
proof -
  let ?Q = "unit_square 0 0"
  have h: "verts ?Q \<noteq> []" "verts band \<noteq> []"
    by (simp_all add: unit_square_def band_def)
  have d: "signed_dot ?Q (x, y, z) = z" for x y z
    by (simp add: signed_dot_def unit_square_def)
  note t = vert_relative_pos_bool_zero_tolerance [OF h]
  have 1: "vert_relative_pos_bool ?Q (1 / 2, 1 / 2, 0) = Inr True"
    using t [of "(1 / 2, 1 / 2, 0)" "[]" 0 True "[]" "[]"] by (simp add: d)
  have 2: "list_all (\<lambda>w. vert_relative_pos ?Q w = Inr 0) (verts band)"
    by (simp add: band_def unit_square_def vert_relative_pos_def distance_point_to_plane_def
          vlength_def PLANE_DISTANCE_THRESHOLD_def)
  have v1: "verts band ! 1 = (1, 0, 1 / 2000)" "verts band ! Suc 0 = (1, 0, 1 / 2000)"
    by (simp_all add: band_def)
  have 3: "cut_step ?Q (verts band) 1 (True, [(0, 0, 1 / 1000), (0, 0, 1 / 2000)], [])
       = Inr (True, [(0, 0, 1 / 1000), (0, 0, 1 / 2000), (1, 0, 1 / 2000)], [])"
  proof -
    from t [of "(0, 0, 0)" "verts band" 1 True "[(0, 0, 1 / 1000), (0, 0, 1 / 2000)]" "[]"]
    obtain f1 b1 where
      s: "cut_step ?Q (verts band) 1 (True, [(0, 0, 1 / 1000), (0, 0, 1 / 2000)], [])
            = Inr (0 \<le> signed_dot ?Q (verts band ! 1), [(0, 0, 1 / 1000), (0, 0, 1 / 2000)] @ f1, [] @ b1)"
      and e: "True = (0 \<le> signed_dot ?Q (verts band ! 1)) \<longrightarrow>
                (if True then f1 = [verts band ! 1] \<and> b1 = [] else f1 = [] \<and> b1 = [verts band ! 1])"
      by (elim conjE exE) (rule that)
    have "f1 = [(1, 0, 1 / 2000)] \<and> b1 = []" using e by (simp add: v1 d)
    then show ?thesis using s by (simp add: v1 d)
  qed
  have 4: "\<exists>p q. cut_conflicting ?Q band = Inr (Some p, Some q)
        \<and> verts p = [(0, 0, 1 / 1000), (0, 0, 1 / 2000), (1, 0, 1 / 2000), (1, 0, 1 / 1000)]
        \<and> verts q = [(0, 0, - 1 / 1000), (1, 0, - 1 / 1000), (1, 0, - 1 / 2000), (0, 0, - 1 / 2000)]"
  proof -
    from t [of "(0, 0, 0)" "[]" 0 True "[]" "[]"] obtain fr bk rp rq where
      r: "cut_rings ?Q band = Inr (fr, bk)" and c: "cut_conflicting ?Q band = Inr (rp, rq)"
      and n1: "rp = None \<longleftrightarrow> length fr < 3 \<or> coordinate_deltas fr < 1 / 1000000"
      and n2: "rq = None \<longleftrightarrow> length bk < 3 \<or> coordinate_deltas bk < 1 / 1000000"
      and w1: "\<forall>p. rp = Some p \<longrightarrow> verts p = fr"
      and w2: "\<forall>q. rq = Some q \<longrightarrow> verts q = bk"
      by (elim conjE exE) (rule that)
    have fr: "fr = [(0, 0, 1 / 1000), (0, 0, 1 / 2000), (1, 0, 1 / 2000), (1, 0, 1 / 1000)]"
      and bk: "bk = [(0, 0, - 1 / 1000), (1, 0, - 1 / 1000), (1, 0, - 1 / 2000), (0, 0, - 1 / 2000)]"
      using r by (simp_all add: band_rings)
    have "rp \<noteq> None" using n1 by (simp add: fr coordinate_deltas_def)
    then obtain p where p: "rp = Some p" by auto
    have "rq \<noteq> None" using n2 by (simp add: bk coordinate_deltas_def)
    then obtain q where q: "rq = Some q" by auto
    have "verts p = fr" "verts q = bk" using w1 w2 p q by simp_all
    then show ?thesis using c p q fr bk by simp
  qed
  show ?thesis using h 1 2 3 4 by blast
qed

text \<open>
  Claim C8. Let the vertex \<open>i\<close> of the cut polygon \<open>P\<close> be on the other side of the plane
  of \<open>Q\<close> than the vertex before it, and let \<open>intersect_line_plane\<close> yield no point for
  the edge between the two. Then the loop of \<open>cut_conflicting\<close> reaches the pass for \<open>i\<close>
  in a state \<open>(cur, f0, b0)\<close>, that pass appends the vertex \<open>i\<close>, and nothing else, to the
  front ring and to the back ring and changes the side, and the loop goes on from
  there to its end: the two rings begin with \<open>f0\<close> and \<open>b0\<close> followed by the vertex.
  \<open>cut_conflicting\<close> returns, without an error, the fragments with these rings (or
  \<^verbatim>\<open>None\<close> for a ring under the cull threshold).
\<close>

theorem cut_conflicting_parallel_edge:
  assumes "verts Q \<noteq> []" and "i < length (verts P)"
    and "(0 \<le> signed_dot Q (verts P ! i))
         \<noteq> (0 \<le> signed_dot Q (verts P ! nat ((int i - 1) mod int (length (verts P)))))"
    and "intersect_line_plane (verts P ! i) (verts P ! nat ((int i - 1) mod int (length (verts P))))
           (hd (verts Q)) (normal Q) = None"
  shows "\<exists>cur f0 b0 cur' f1 b1 rp rq.
           cut_loop Q (verts P) [0 ..< i] (0 \<le> signed_dot Q (last (verts P)), [], []) = Inr (cur, f0, b0)
         \<and> cut_step Q (verts P) i (cur, f0, b0) = Inr (\<not> cur, f0 @ [verts P ! i], b0 @ [verts P ! i])
         \<and> cut_loop Q (verts P) [Suc i ..< length (verts P)] (\<not> cur, f0 @ [verts P ! i], b0 @ [verts P ! i])
             = Inr (cur', f0 @ [verts P ! i] @ f1, b0 @ [verts P ! i] @ b1)
         \<and> cut_rings Q P = Inr (f0 @ [verts P ! i] @ f1, b0 @ [verts P ! i] @ b1)
         \<and> cut_conflicting Q P = Inr (rp, rq)
         \<and> (rp = None \<longleftrightarrow> length (f0 @ [verts P ! i] @ f1) < 3
                          \<or> coordinate_deltas (f0 @ [verts P ! i] @ f1) < 1 / 1000000)
         \<and> (rq = None \<longleftrightarrow> length (b0 @ [verts P ! i] @ b1) < 3
                          \<or> coordinate_deltas (b0 @ [verts P ! i] @ b1) < 1 / 1000000)
         \<and> (\<forall>p. rp = Some p \<longrightarrow> verts p = f0 @ [verts P ! i] @ f1)
         \<and> (\<forall>q. rq = Some q \<longrightarrow> verts q = b0 @ [verts P ! i] @ b1)"
proof -
  let ?vs = "verts P"
  let ?v = "?vs ! i"
  let ?c0 = "0 \<le> signed_dot Q (last ?vs)"
  have p: "?vs \<noteq> []" using assms(2) by auto
  obtain co rest where co: "verts Q = co # rest" using assms(1) by (cases "verts Q") auto
  obtain cur f0 b0 where l0: "cut_loop Q ?vs [0 ..< 0 + i] (?c0, [], []) = Inr (cur, f0, b0)"
    using cut_loop_total [OF assms(1), of ?vs "[0 ..< 0 + i]" ?c0 "[]" "[]"] by auto
  have "cut_inv Q ?vs (0 + i) (cur, f0, b0)"
    by (rule cut_loop_inv [OF assms(1) _ cut_inv_start [OF p] l0]) (use assms(2) in simp)
  then have cur: "cur \<longleftrightarrow> 0 \<le> signed_dot Q (?vs ! nat ((int i - 1) mod int (length ?vs)))"
    by (simp add: cut_inv_def)
  then have nc: "(0 \<le> signed_dot Q ?v) = (\<not> cur)" using assms(3) by blast
  have vb: "vert_relative_pos_bool Q ?v = Inr (\<not> cur)"
    by (simp add: vert_relative_pos_bool_signed_dot [OF assms(1)] nc)
  have none: "intersect_line_plane ?v (?vs ! nat ((int i - 1) mod int (length ?vs))) co (normal Q) = None"
    using assms(4) by (simp add: co)
  have s: "cut_step Q ?vs i (cur, f0, b0) = Inr (\<not> cur, f0 @ [?v], b0 @ [?v])"
    by (cases cur) (simp_all add: cut_step_def vb co none Let_def)
  obtain cur' f1 b1 where
    l1: "cut_loop Q ?vs [Suc i ..< length ?vs] (\<not> cur, f0 @ [?v], b0 @ [?v])
           = Inr (cur', (f0 @ [?v]) @ f1, (b0 @ [?v]) @ b1)"
    using cut_loop_appends [OF assms(1)] by blast
  have "[0 ..< i + (length ?vs - i)] = [0 ..< i] @ [i ..< i + (length ?vs - i)]"
    by (rule upt_add_eq_append) simp
  then have sp: "[0 ..< length ?vs] = [0 ..< i] @ i # [Suc i ..< length ?vs]"
    using assms(2) by (simp add: upt_conv_Cons)
  have all: "cut_loop Q ?vs [0 ..< length ?vs] (?c0, [], [])
               = Inr (cur', f0 @ [?v] @ f1, b0 @ [?v] @ b1)"
    using l0 s l1 unfolding sp cut_loop_append_list by simp
  have r: "cut_rings Q P = Inr (f0 @ [?v] @ f1, b0 @ [?v] @ b1)"
    by (simp add: cut_rings_loop [OF assms(1) p] all)
  from cut_conflicting_result [OF assms(1) p] obtain fr bk rp rq where
    r': "cut_rings Q P = Inr (fr, bk)" and c: "cut_conflicting Q P = Inr (rp, rq)"
    and n1: "rp = None \<longleftrightarrow> length fr < 3 \<or> coordinate_deltas fr < 1 / 1000000"
    and n2: "rq = None \<longleftrightarrow> length bk < 3 \<or> coordinate_deltas bk < 1 / 1000000"
    and v1: "\<forall>f. rp = Some f \<longrightarrow> verts f = fr \<and> rgb_color f = rgb_color P
              \<and> stroke_color f = stroke_color P \<and> opacity f = opacity P
              \<and> stroke_opacity f = stroke_opacity P \<and> normal f = normal P"
    and v2: "\<forall>f. rq = Some f \<longrightarrow> verts f = bk \<and> rgb_color f = rgb_color P
              \<and> stroke_color f = stroke_color P \<and> opacity f = opacity P
              \<and> stroke_opacity f = stroke_opacity P \<and> normal f = normal P"
    by (elim exE conjE) (rule that)
  have fr: "fr = f0 @ [?v] @ f1" and bk: "bk = b0 @ [?v] @ b1" using r r' by simp_all
  have w1: "\<forall>p. rp = Some p \<longrightarrow> verts p = f0 @ [?v] @ f1" using v1 fr by blast
  have w2: "\<forall>q. rq = Some q \<longrightarrow> verts q = b0 @ [?v] @ b1" using v2 bk by blast
  have l0': "cut_loop Q ?vs [0 ..< i] (?c0, [], []) = Inr (cur, f0, b0)" using l0 by simp
  have l1': "cut_loop Q ?vs [Suc i ..< length ?vs] (\<not> cur, f0 @ [?v], b0 @ [?v])
           = Inr (cur', f0 @ [?v] @ f1, b0 @ [?v] @ b1)" using l1 by simp
  show ?thesis
    by (rule exI [of _ cur], rule exI [of _ f0], rule exI [of _ b0], rule exI [of _ cur'],
        rule exI [of _ f1], rule exI [of _ b1], rule exI [of _ rp], rule exI [of _ rq])
       (use l0' s l1' r c n1 [unfolded fr] n2 [unfolded bk] w1 w2 in blast)
qed

theorem cut_conflicting_parallel_edge_witness:
  "verts (unit_square 0 0) \<noteq> [] \<and> 3 < length (verts notch)
   \<and> signed_dot (unit_square 0 0) (verts notch ! 3) < 0
   \<and> 0 \<le> signed_dot (unit_square 0 0) (verts notch ! 2)
   \<and> intersect_line_plane (verts notch ! 3) (verts notch ! 2)
         (hd (verts (unit_square 0 0))) (normal (unit_square 0 0)) = None
   \<and> cut_step (unit_square 0 0) (verts notch) 3
         (True, [(0, 0, 1 / 1000), (0, 0, 1), (1, 0, 1), (1, 0, 1 / 100000000)], [(0, 0, - 1 / 1000)])
       = Inr (False,
              [(0, 0, 1 / 1000), (0, 0, 1), (1, 0, 1), (1, 0, 1 / 100000000), (2, 0, - 1 / 100000000)],
              [(0, 0, - 1 / 1000), (2, 0, - 1 / 100000000)])
   \<and> (\<exists>p q. cut_conflicting (unit_square 0 0) notch = Inr (Some p, Some q)
        \<and> verts p = [(0, 0, 1 / 1000), (0, 0, 1), (1, 0, 1), (1, 0, 1 / 100000000),
                      (2, 0, - 1 / 100000000)]
        \<and> verts q = [(0, 0, - 1 / 1000), (2, 0, - 1 / 100000000), (2, 0, - 1), (0, 0, - 1)])"
proof -
  let ?Q = "unit_square 0 0"
  let ?F = "[(0, 0, 1 / 1000), (0, 0, 1), (1, 0, 1), (1, 0, 1 / 100000000), (2, 0, - 1 / 100000000)]
            :: vec list"
  let ?B = "[(0, 0, - 1 / 1000), (2, 0, - 1 / 100000000), (2, 0, - 1), (0, 0, - 1)] :: vec list"
  have h: "verts ?Q \<noteq> []" "3 < length (verts notch)"
    by (simp_all add: unit_square_def notch_def)
  have d: "signed_dot ?Q (x, y, z) = z" for x y z
    by (simp add: signed_dot_def unit_square_def)
  have pv: "nat ((int 3 - 1) mod int (length (verts notch))) = 2" by (simp add: notch_def)
  have v3: "verts notch ! 3 = (2, 0, - 1 / 100000000)" and v2: "verts notch ! 2 = (1, 0, 1 / 100000000)"
    and lst: "last (verts notch) = (0, 0, - 1)"
    by (simp_all add: notch_def)
  have x: "(0 \<le> signed_dot ?Q (verts notch ! 3))
         \<noteq> (0 \<le> signed_dot ?Q (verts notch ! nat ((int 3 - 1) mod int (length (verts notch)))))"
    unfolding pv by (simp add: v2 v3 d)
  have n: "intersect_line_plane (verts notch ! 3)
             (verts notch ! nat ((int 3 - 1) mod int (length (verts notch))))
             (hd (verts ?Q)) (normal ?Q) = None"
    unfolding pv by (simp add: v2 v3 unit_square_def intersect_line_plane_def FLT_EPSILON_def)
  have l0: "cut_loop ?Q (verts notch) [0 ..< 3] (False, [], [])
              = Inr (True, [(0, 0, 1 / 1000), (0, 0, 1), (1, 0, 1), (1, 0, 1 / 100000000)],
                     [(0, 0, - 1 / 1000)])"
    by (simp add: cut_step_def unit_square_def notch_def vert_relative_pos_bool_def
          intersect_line_plane_def FLT_EPSILON_def normalized_z
          POLYGON_CUT_PRECISION_def Let_def upt_conv_Cons)
  from cut_conflicting_parallel_edge [OF h x n] obtain cur f0 b0 cur' f1 b1 rp rq where
    a: "cut_loop ?Q (verts notch) [0 ..< 3] (0 \<le> signed_dot ?Q (last (verts notch)), [], [])
          = Inr (cur, f0, b0)"
    and s: "cut_step ?Q (verts notch) 3 (cur, f0, b0)
          = Inr (\<not> cur, f0 @ [verts notch ! 3], b0 @ [verts notch ! 3])"
    and r: "cut_rings ?Q notch = Inr (f0 @ [verts notch ! 3] @ f1, b0 @ [verts notch ! 3] @ b1)"
    and c: "cut_conflicting ?Q notch = Inr (rp, rq)"
    and n1: "rp = None \<longleftrightarrow> length (f0 @ [verts notch ! 3] @ f1) < 3
                          \<or> coordinate_deltas (f0 @ [verts notch ! 3] @ f1) < 1 / 1000000"
    and n2: "rq = None \<longleftrightarrow> length (b0 @ [verts notch ! 3] @ b1) < 3
                          \<or> coordinate_deltas (b0 @ [verts notch ! 3] @ b1) < 1 / 1000000"
    and w1: "\<forall>p. rp = Some p \<longrightarrow> verts p = f0 @ [verts notch ! 3] @ f1"
    and w2: "\<forall>q. rq = Some q \<longrightarrow> verts q = b0 @ [verts notch ! 3] @ b1"
    by (elim conjE exE) (rule that)
  have c0: "(0 \<le> signed_dot ?Q (last (verts notch))) = False" by (simp add: lst d)
  have "Inr (True, [(0, 0, 1 / 1000), (0, 0, 1), (1, 0, 1), (1, 0, 1 / 100000000)],
             [(0, 0, - 1 / 1000)]) = (Inr (cur, f0, b0) :: error + cut_state)"
    using a unfolding c0 l0 .
  then have st: "cur = True" "f0 = [(0, 0, 1 / 1000), (0, 0, 1), (1, 0, 1), (1, 0, 1 / 100000000)]"
    "b0 = [(0, 0, - 1 / 1000)]"
    by simp_all
  have 1: "cut_step ?Q (verts notch) 3
         (True, [(0, 0, 1 / 1000), (0, 0, 1), (1, 0, 1), (1, 0, 1 / 100000000)], [(0, 0, - 1 / 1000)])
       = Inr (False, ?F, [(0, 0, - 1 / 1000), (2, 0, - 1 / 100000000)])"
    using s by (simp add: st v3)
  have "(Inr (?F, ?B) :: error + vec list \<times> vec list)
          = Inr (f0 @ [verts notch ! 3] @ f1, b0 @ [verts notch ! 3] @ b1)"
    using r unfolding notch_rings .
  then have pr: "(f0 @ [verts notch ! 3] @ f1, b0 @ [verts notch ! 3] @ b1) = (?F, ?B)"
    by (simp only: sum.inject)
  have fr: "f0 @ [verts notch ! 3] @ f1 = ?F"
    using arg_cong [OF pr, of fst] by (simp only: fst_conv)
  have bk: "b0 @ [verts notch ! 3] @ b1 = ?B"
    using arg_cong [OF pr, of snd] by (simp only: snd_conv)
  have n1': "rp = None \<longleftrightarrow> length ?F < 3 \<or> coordinate_deltas ?F < 1 / 1000000"
    using n1 unfolding fr .
  have n2': "rq = None \<longleftrightarrow> length ?B < 3 \<or> coordinate_deltas ?B < 1 / 1000000"
    using n2 unfolding bk .
  have w1': "\<forall>p. rp = Some p \<longrightarrow> verts p = ?F" using w1 unfolding fr .
  have w2': "\<forall>q. rq = Some q \<longrightarrow> verts q = ?B" using w2 unfolding bk .
  have "rp \<noteq> None" using n1' by (simp add: coordinate_deltas_def)
  then obtain p where p: "rp = Some p" by auto
  have "rq \<noteq> None" using n2' by (simp add: coordinate_deltas_def)
  then obtain q where q: "rq = Some q" by auto
  have "verts p = ?F" "verts q = ?B" using w1' w2' p q by blast+
  then have 2: "\<exists>p q. cut_conflicting ?Q notch = Inr (Some p, Some q) \<and> verts p = ?F \<and> verts q = ?B"
    using c p q by blast
  have 3: "signed_dot ?Q (verts notch ! 3) < 0" "0 \<le> signed_dot ?Q (verts notch ! 2)"
    by (simp_all add: v2 v3 d)
  have 4: "intersect_line_plane (verts notch ! 3) (verts notch ! 2) (hd (verts ?Q)) (normal ?Q) = None"
    using n unfolding pv .
  show ?thesis using h 3 4 1 2 by (intro conjI) assumption+
qed

section \<open>The conflict test: theorems\<close>

lemma bounds_loop_le:
  "b0 b \<le> b1 b \<Longrightarrow> b2 b \<le> b3 b \<Longrightarrow> b4 b \<le> b5 b \<Longrightarrow>
   b0 (bounds_loop vs b) \<le> b1 (bounds_loop vs b) \<and> b2 (bounds_loop vs b) \<le> b3 (bounds_loop vs b)
   \<and> b4 (bounds_loop vs b) \<le> b5 (bounds_loop vs b)"
proof (induction vs arbitrary: b)
  case Nil
  then show ?case by simp
next
  case (Cons v vs)
  show ?case unfolding bounds_loop.simps
    by (rule Cons.IH) (use Cons.prems in \<open>auto simp: min_def max_def\<close>)
qed

lemma recalculate_bounds_ordered:
  assumes "recalculate_bounds p = Inr p'"
  shows "\<exists>b. bounds p' = Some b \<and> b0 b \<le> b1 b \<and> b2 b \<le> b3 b \<and> b4 b \<le> b5 b
             \<and> verts p' = verts p \<and> verts p \<noteq> []"
proof (cases "verts p")
  case Nil
  then show ?thesis using assms by (simp add: recalculate_bounds_def)
next
  case (Cons v0 rest)
  let ?b = "\<lparr>b0 = vx v0, b1 = vx v0, b2 = vy v0, b3 = vy v0, b4 = vz v0, b5 = vz v0\<rparr>"
  have "p' = p\<lparr>bounds := Some (bounds_loop (verts p) ?b)\<rparr>"
    using assms Cons by (simp add: recalculate_bounds_def)
  then show ?thesis using bounds_loop_le [of ?b "verts p"] Cons by simp
qed

lemma in_conflict_eq:
  assumes "bounds P = Some pb" and "bounds Q = Some qb"
    and "b0 pb \<le> b1 pb" and "b2 pb \<le> b3 pb" and "b4 pb \<le> b5 pb"
    and "verts P \<noteq> []" and "verts Q \<noteq> []"
  shows "in_conflict overlaps P Q =
           Inr (bounds_overlap pb qb \<and> relative_pos Q P = Inr 0 \<and> relative_pos P Q = Inr 0
                \<and> overlaps (projection P) (projection Q))"
proof -
  obtain r1 where r1: "relative_pos Q P = Inr r1" using relative_pos_total [OF assms(7)] by blast
  obtain r2 where r2: "relative_pos P Q = Inr r2" using relative_pos_total [OF assms(6)] by blast
  show ?thesis
    using assms(3-5)
    by (auto simp: in_conflict_def assms(1,2) r1 r2 bounds_overlap_def projection_def Let_def)
qed

text \<open>
  For polygons \<open>P\<close> and \<open>Q\<close> whose bounds have been computed by \<open>recalculate_bounds\<close>,
  and whatever the overlap test of the library answers, \<open>in_conflict\<close> returns True if
  and only if the bounding boxes overlap on all three axes, \<open>P\<close> is Straddling against
  the plane of \<open>Q\<close>, \<open>Q\<close> is Straddling against the plane of \<open>P\<close>, and the overlap test
  of the two screen-space projections (the parameter \<open>overlaps\<close>) answers True; it
  returns False otherwise.
\<close>

theorem in_conflict_iff:
  assumes "recalculate_bounds P0 = Inr P" and "recalculate_bounds Q0 = Inr Q"
  shows "\<exists>pb qb. bounds P = Some pb \<and> bounds Q = Some qb
         \<and> in_conflict overlaps P Q =
             Inr (bounds_overlap pb qb \<and> relative_pos Q P = Inr 0 \<and> relative_pos P Q = Inr 0
                  \<and> overlaps (projection P) (projection Q))"
proof -
  obtain pb where p: "bounds P = Some pb" "b0 pb \<le> b1 pb" "b2 pb \<le> b3 pb" "b4 pb \<le> b5 pb"
      "verts P \<noteq> []"
    using recalculate_bounds_ordered [OF assms(1)] by auto
  obtain qb where q: "bounds Q = Some qb" "verts Q \<noteq> []"
    using recalculate_bounds_ordered [OF assms(2)] by auto
  show ?thesis
    using in_conflict_eq [OF p(1) q(1) p(2-4) p(5) q(2), of overlaps] p(1) q(1) by simp
qed

theorem in_conflict_iff_witness:
  "recalculate_bounds wall = Inr wall \<and> recalculate_bounds slab = Inr slab
   \<and> relative_pos slab wall = Inr 0 \<and> relative_pos wall slab = Inr 0
   \<and> in_conflict (\<lambda>p q. True) wall slab = Inr True
   \<and> in_conflict (\<lambda>p q. False) wall slab = Inr False
   \<and> in_conflict (\<lambda>p q. True) wall (unit_square 0 0) = Inr False"
proof -
  have w: "recalculate_bounds wall = Inr wall"
    by (simp add: recalculate_bounds_def wall_def)
  have s: "recalculate_bounds slab = Inr slab"
    by (simp add: recalculate_bounds_def slab_def)
  have u: "recalculate_bounds (unit_square 0 0) = Inr (unit_square 0 0)"
    by (simp add: recalculate_bounds_def unit_square_def)
  have r1: "relative_pos slab wall = Inr 0"
    by (simp add: relative_pos_def vert_relative_pos_def distance_point_to_plane_def vlength_def
          PLANE_DISTANCE_THRESHOLD_def slab_def wall_def)
  have r2: "relative_pos wall slab = Inr 0"
    by (simp add: relative_pos_def vert_relative_pos_def distance_point_to_plane_def vlength_def
          PLANE_DISTANCE_THRESHOLD_def slab_def wall_def)
  have r3: "relative_pos wall (unit_square 0 0) = Inr 1"
    by (simp add: relative_pos_def vert_relative_pos_def distance_point_to_plane_def vlength_def
          PLANE_DISTANCE_THRESHOLD_def unit_square_def wall_def)
  have bw: "bounds wall = Some \<lparr>b0 = 0, b1 = 1, b2 = 0, b3 = 0, b4 = - 1, b5 = 1\<rparr>"
    by (simp add: wall_def)
  have bs: "bounds slab = Some \<lparr>b0 = 0, b1 = 1, b2 = - 1, b3 = 1, b4 = 0, b5 = 0\<rparr>"
    by (simp add: slab_def)
  have "in_conflict (\<lambda>p q. True) wall slab = Inr True"
    using in_conflict_iff [OF w s, of "\<lambda>p q. True"] by (simp add: bw bs r1 r2 bounds_overlap_def)
  moreover have "in_conflict (\<lambda>p q. False) wall slab = Inr False"
    using in_conflict_iff [OF w s, of "\<lambda>p q. False"] by auto
  moreover have "in_conflict (\<lambda>p q. True) wall (unit_square 0 0) = Inr False"
    using in_conflict_iff [OF w u, of "\<lambda>p q. True"] by (auto simp: r3)
  ultimately show ?thesis using w s r1 r2 by blast
qed

lemma vlength_345:
  "vlength (3 / 5, 0, 4 / 5) = 1" "vlength (- 3 / 5, 0, 4 / 5) = 1"
  "vlength (- (3 / 5), 0, 4 / 5) = 1"
proof -
  have "dot (3 / 5, 0, 4 / 5) (3 / 5, 0, 4 / 5) = 1" by simp
  then show "vlength (3 / 5, 0, 4 / 5) = 1" unfolding vlength_def by simp
  have "dot (- 3 / 5, 0, 4 / 5) (- 3 / 5, 0, 4 / 5) = 1" by simp
  then show "vlength (- 3 / 5, 0, 4 / 5) = 1" unfolding vlength_def by simp
  then show "vlength (- (3 / 5), 0, 4 / 5) = 1" by simp
qed

lemma quads_straddle:
  "relative_pos outer_quad inner_quad = Inr 0" "relative_pos inner_quad outer_quad = Inr 0"
  by (simp_all add: relative_pos_def vert_relative_pos_def distance_point_to_plane_def vlength_345
        PLANE_DISTANCE_THRESHOLD_def inner_quad_def outer_quad_def)

lemma quads_projection:
  "projection inner_quad = [(6, 6), (14, 6), (14, 14), (6, 14)]"
  "projection outer_quad = [(2, 2), (18, 2), (18, 18), (2, 18)]"
  by (simp_all add: projection_def inner_quad_def outer_quad_def)

lemma inner_quad_interior:
  "interior_point [(6, 6), (14, 6), (14, 14), (6, 14)] (x, y) \<longleftrightarrow> 6 < x \<and> x < 14 \<and> 6 < y \<and> y < 14"
  by (auto simp: interior_point_def ring_edges_def)

lemma outer_quad_interior:
  "interior_point [(2, 2), (18, 2), (18, 18), (2, 18)] (x, y) \<longleftrightarrow> 2 < x \<and> x < 18 \<and> 2 < y \<and> y < 18"
  by (auto simp: interior_point_def ring_edges_def)

lemma outer_quad_exterior:
  "exterior_point [(2, 2), (18, 2), (18, 18), (2, 18)] (x, y) \<longleftrightarrow> x < 2 \<or> 18 < x \<or> y < 2 \<or> 18 < y"
  by (auto simp: exterior_point_def ring_edges_def)

lemma quads_not_overlaps: "\<not> shapely_overlaps (projection inner_quad) (projection outer_quad)"
proof -
  have "\<not> (interior_point (projection inner_quad) p \<and> exterior_point (projection outer_quad) p)" for p
    by (cases p) (auto simp: quads_projection inner_quad_interior outer_quad_exterior)
  then show ?thesis unfolding shapely_overlaps_def by blast
qed

text \<open>
  Claim C6, at two crossing squares of which one projects inside the other. The
  bounds of both are computed, their bounding boxes overlap on all three axes, each
  is Straddling against the plane of the other, and their projections overlap
  geometrically: the screen point (10, 10) is in the interior of both. The overlap
  test of Shapely is False of them, because the smaller projection lies within the
  larger one, and \<open>in_conflict\<close> returns False.
\<close>

theorem in_conflict_containment:
  "recalculate_bounds inner_quad = Inr inner_quad
   \<and> recalculate_bounds outer_quad = Inr outer_quad
   \<and> bounds_overlap (the (bounds inner_quad)) (the (bounds outer_quad))
   \<and> relative_pos outer_quad inner_quad = Inr 0
   \<and> relative_pos inner_quad outer_quad = Inr 0
   \<and> interior_point (projection inner_quad) (10, 10)
   \<and> interior_point (projection outer_quad) (10, 10)
   \<and> projections_overlap inner_quad outer_quad
   \<and> \<not> shapely_overlaps (projection inner_quad) (projection outer_quad)
   \<and> in_conflict shapely_overlaps inner_quad outer_quad = Inr False
   \<and> in_conflict shapely_overlaps outer_quad inner_quad = Inr False"
proof -
  have 1: "recalculate_bounds inner_quad = Inr inner_quad"
    by (simp add: recalculate_bounds_def inner_quad_def)
  have 2: "recalculate_bounds outer_quad = Inr outer_quad"
    by (simp add: recalculate_bounds_def outer_quad_def)
  have bi: "bounds inner_quad = Some \<lparr>b0 = 6, b1 = 14, b2 = 6, b3 = 14, b4 = 7, b5 = 13\<rparr>"
    by (simp add: inner_quad_def)
  have bo: "bounds outer_quad = Some \<lparr>b0 = 2, b1 = 18, b2 = 2, b3 = 18, b4 = 4, b5 = 16\<rparr>"
    by (simp add: outer_quad_def)
  have 3: "bounds_overlap (the (bounds inner_quad)) (the (bounds outer_quad))"
    by (simp add: bi bo bounds_overlap_def)
  have 4: "interior_point (projection inner_quad) (10, 10)"
    by (simp add: quads_projection inner_quad_interior)
  have 5: "interior_point (projection outer_quad) (10, 10)"
    by (simp add: quads_projection outer_quad_interior)
  have 6: "projections_overlap inner_quad outer_quad"
    unfolding projections_overlap_def using 4 5 by blast
  have vi: "verts inner_quad \<noteq> []" and vo: "verts outer_quad \<noteq> []"
    by (simp_all add: inner_quad_def outer_quad_def)
  have 7: "in_conflict shapely_overlaps inner_quad outer_quad = Inr False"
    using in_conflict_eq [OF bi bo _ _ _ vi vo, of shapely_overlaps] quads_not_overlaps by simp
  have n: "\<not> shapely_overlaps (projection outer_quad) (projection inner_quad)"
    using quads_not_overlaps unfolding shapely_overlaps_def by blast
  have 8: "in_conflict shapely_overlaps outer_quad inner_quad = Inr False"
    using in_conflict_eq [OF bo bi _ _ _ vo vi, of shapely_overlaps] n by simp
  show ?thesis using 1 2 3 quads_straddle 4 5 6 quads_not_overlaps 7 8 by (intro conjI) assumption+
qed

section \<open>The depth heuristic sorter: theorems\<close>

lemma sorted_neg_desc:
  fixes f :: "'a \<Rightarrow> real"
  shows "sorted (map (\<lambda>x. - f x) ys) \<Longrightarrow> sorted_wrt (\<lambda>a c. f a \<ge> f c) ys"
  by (induction ys) auto

lemma py_sort_reverse_props:
  "sorted_wrt (\<lambda>a c. key a \<ge> key c) (py_sort_reverse key xs)
   \<and> mset (py_sort_reverse key xs) = mset xs
   \<and> (\<forall>k. filter (\<lambda>x. key x = k) (py_sort_reverse key xs) = filter (\<lambda>x. key x = k) xs)"
proof -
  have "sorted (map (\<lambda>x. - key x) (py_sort_reverse key xs))" by (simp add: py_sort_reverse_def)
  then have 1: "sorted_wrt (\<lambda>a c. key a \<ge> key c) (py_sort_reverse key xs)"
    by (rule sorted_neg_desc)
  have 2: "mset (py_sort_reverse key xs) = mset xs" by (simp add: py_sort_reverse_def)
  have 3: "filter (\<lambda>x. key x = k) (py_sort_reverse key xs) = filter (\<lambda>x. key x = k) xs" for k
    using sort_key_stable [of "\<lambda>x. - key x" "- k" xs]
    by (simp add: py_sort_reverse_def)
  from 1 2 3 show ?thesis by blast
qed

lemma insort_key_agree:
  "f x = g x \<Longrightarrow> \<forall>y \<in> set ys. f y = g y \<Longrightarrow> insort_key f x ys = insort_key g x ys"
  by (induction ys) simp_all

lemma sort_key_agree:
  "\<forall>x \<in> set xs. f x = g x \<Longrightarrow> sort_key f xs = sort_key g xs"
proof (induction xs)
  case Nil
  show ?case by simp
next
  case (Cons x xs)
  then have "sort_key f xs = sort_key g xs" by simp
  moreover have "insort_key f x (sort_key g xs) = insort_key g x (sort_key g xs)"
    using Cons.prems by (intro insort_key_agree) auto
  ultimately show ?case by simp
qed

lemma fold_vz: "fold (\<lambda>vert d. d + vz vert) vs (a::real) = a + sum_list (map vz vs)"
  by (induction vs arbitrary: a) simp_all

lemma weightmid_loop_eq:
  assumes "\<forall>p \<in> set vps. verts p \<noteq> []"
  shows "weightmid_loop vps = Inr (map (\<lambda>p. p\<lparr>depth := mean_vertex_depth p\<rparr>) vps)"
  using assms by (induction vps) (simp_all add: mean_vertex_depth_def fold_vz)

lemma sort_by_bounds_eq:
  assumes "\<forall>p \<in> set vps. bounds p \<noteq> None"
  shows "sort_by_bounds key vps =
           Inr (py_sort_reverse (\<lambda>p. case bounds p of Some b \<Rightarrow> key b | None \<Rightarrow> 0) vps)"
  using assms by (auto simp: sort_by_bounds_def list_ex_iff)

text \<open>The list the sort works on: the input, with the mean vertex depth stored in
  each polygon for \<^verbatim>\<open>heuristic.weightmid\<close>.\<close>

lemma depth_sort_bb_depth_eq:
  assumes h: "h \<in> {''heuristic.bbmid'', ''heuristic.bbmin'', ''heuristic.bbmax'', ''heuristic.weightmid''}"
    and ok: "\<forall>p \<in> set vps. bounds p \<noteq> None \<and> verts p \<noteq> []"
  shows "depth_sort_bb_depth vps h =
           Inr (py_sort_reverse (heuristic_key h)
                  (if h = ''heuristic.weightmid''
                   then map (\<lambda>p. p\<lparr>depth := mean_vertex_depth p\<rparr>) vps else vps))"
proof (cases "h = ''heuristic.weightmid''")
  case True
  have w: "weightmid_loop vps = Inr (map (\<lambda>p. p\<lparr>depth := mean_vertex_depth p\<rparr>) vps)"
    using ok by (intro weightmid_loop_eq) auto
  have k: "py_sort_reverse depth (map (\<lambda>p. p\<lparr>depth := mean_vertex_depth p\<rparr>) vps)
         = py_sort_reverse (heuristic_key h) (map (\<lambda>p. p\<lparr>depth := mean_vertex_depth p\<rparr>) vps)"
    unfolding py_sort_reverse_def
    by (rule sort_key_agree) (auto simp: heuristic_key_def True mean_vertex_depth_def)
  show ?thesis using True w k by (simp add: depth_sort_bb_depth_def)
next
  case False
  have b: "\<forall>p \<in> set vps. bounds p \<noteq> None" using ok by auto
  have k: "(\<lambda>p. case bounds p of Some b \<Rightarrow> key b | None \<Rightarrow> 0) = heuristic_key h"
    if "key = (if h = ''heuristic.bbmin'' then b4 else if h = ''heuristic.bbmax'' then b5
               else (\<lambda>b. (b4 b + b5 b) / 2))" for key
    using that False by (auto simp: heuristic_key_def fun_eq_iff split: option.splits)
  from h False consider "h = ''heuristic.bbmid''" | "h = ''heuristic.bbmin''" | "h = ''heuristic.bbmax''"
    by auto
  then show ?thesis
  proof cases
    case 1
    then show ?thesis using k [of "\<lambda>b. (b4 b + b5 b) / 2"]
      by (simp add: depth_sort_bb_depth_def sort_by_bounds_eq [OF b] add.commute)
  next
    case 2
    then show ?thesis using k [of b4]
      by (simp add: depth_sort_bb_depth_def sort_by_bounds_eq [OF b])
  next
    case 3
    then show ?thesis using k [of b5]
      by (simp add: depth_sort_bb_depth_def sort_by_bounds_eq [OF b])
  qed
qed

text \<open>
  Claim C9. For each of the four heuristics and every polygon list whose polygons have
  their bounds computed (and so a vertex), \<open>depth_sort_bb_depth\<close> returns the list
  ordered by descending key of the heuristic, as a rearrangement of its input (with
  the mean vertex depth stored in \<open>depth\<close> for \<^verbatim>\<open>heuristic.weightmid\<close>) that keeps
  polygons of equal key in their input order. For three unit squares at depths 1, 2
  and 3 that do not overlap in projection, "Closest vertex" (\<^verbatim>\<open>heuristic.bbmin\<close>)
  gives the order depth 3, depth 2, depth 1.
\<close>

theorem depth_sort_bb_depth_descending_stable:
  assumes "h \<in> {''heuristic.bbmid'', ''heuristic.bbmin'', ''heuristic.bbmax'', ''heuristic.weightmid''}"
    and "\<forall>p \<in> set vps. bounds p \<noteq> None \<and> verts p \<noteq> []"
  shows "\<exists>r. depth_sort_bb_depth vps h = Inr r
           \<and> sorted_wrt (\<lambda>a c. heuristic_key h a \<ge> heuristic_key h c) r
           \<and> mset r = mset (if h = ''heuristic.weightmid''
                             then map (\<lambda>p. p\<lparr>depth := mean_vertex_depth p\<rparr>) vps else vps)
           \<and> (\<forall>k. filter (\<lambda>p. heuristic_key h p = k) r =
                   filter (\<lambda>p. heuristic_key h p = k)
                     (if h = ''heuristic.weightmid''
                      then map (\<lambda>p. p\<lparr>depth := mean_vertex_depth p\<rparr>) vps else vps))
           \<and> depth_sort_bb_depth [unit_square 0 1, unit_square 2 2, unit_square 4 3]
               ''heuristic.bbmin'' = Inr [unit_square 4 3, unit_square 2 2, unit_square 0 1]"
proof -
  let ?xs = "if h = ''heuristic.weightmid''
             then map (\<lambda>p. p\<lparr>depth := mean_vertex_depth p\<rparr>) vps else vps"
  have e: "depth_sort_bb_depth vps h = Inr (py_sort_reverse (heuristic_key h) ?xs)"
    by (rule depth_sort_bb_depth_eq [OF assms])
  have s: "depth_sort_bb_depth [unit_square 0 1, unit_square 2 2, unit_square 4 3]
               ''heuristic.bbmin'' = Inr [unit_square 4 3, unit_square 2 2, unit_square 0 1]"
    by (simp add: depth_sort_bb_depth_def sort_by_bounds_def py_sort_reverse_def unit_square_def)
  show ?thesis
    using py_sort_reverse_props [of "heuristic_key h" ?xs] e s by blast
qed

theorem depth_sort_bb_depth_descending_stable_witness:
  "''heuristic.bbmax'' \<in> {''heuristic.bbmid'', ''heuristic.bbmin'', ''heuristic.bbmax'', ''heuristic.weightmid''}
   \<and> list_all (\<lambda>p. bounds p \<noteq> None \<and> verts p \<noteq> [])
        [unit_square 0 1, unit_square 2 3, unit_square 4 1, unit_square 6 2]
   \<and> depth_sort_bb_depth [unit_square 0 1, unit_square 2 3, unit_square 4 1, unit_square 6 2]
        ''heuristic.bbmax'' = Inr [unit_square 2 3, unit_square 6 2, unit_square 0 1, unit_square 4 1]
   \<and> (\<exists>r. depth_sort_bb_depth [unit_square 0 1, unit_square 2 3, unit_square 4 1, unit_square 6 2]
             ''heuristic.bbmax'' = Inr r
           \<and> sorted_wrt (\<lambda>a c. heuristic_key ''heuristic.bbmax'' a \<ge> heuristic_key ''heuristic.bbmax'' c) r
           \<and> filter (\<lambda>p. heuristic_key ''heuristic.bbmax'' p = 1) r = [unit_square 0 1, unit_square 4 1])"
proof -
  let ?vps = "[unit_square 0 1, unit_square 2 3, unit_square 4 1, unit_square 6 2]"
  have h: "''heuristic.bbmax'' \<in> {''heuristic.bbmid'', ''heuristic.bbmin'', ''heuristic.bbmax'', ''heuristic.weightmid''}"
    by simp
  have ok: "\<forall>p \<in> set ?vps. bounds p \<noteq> None \<and> verts p \<noteq> []"
    by (simp add: unit_square_def)
  from depth_sort_bb_depth_descending_stable [OF h ok] obtain r where
    r: "depth_sort_bb_depth ?vps ''heuristic.bbmax'' = Inr r"
    and so: "sorted_wrt (\<lambda>a c. heuristic_key ''heuristic.bbmax'' a \<ge> heuristic_key ''heuristic.bbmax'' c) r"
    and st: "\<forall>k. filter (\<lambda>p. heuristic_key ''heuristic.bbmax'' p = k) r =
                 filter (\<lambda>p. heuristic_key ''heuristic.bbmax'' p = k) ?vps"
    by (elim exE conjE) (rule that, simp_all)
  have f: "filter (\<lambda>p. heuristic_key ''heuristic.bbmax'' p = 1) ?vps = [unit_square 0 1, unit_square 4 1]"
    by (simp add: heuristic_key_def unit_square_def)
  have e: "depth_sort_bb_depth ?vps ''heuristic.bbmax'' =
             Inr [unit_square 2 3, unit_square 6 2, unit_square 0 1, unit_square 4 1]"
    by (simp add: depth_sort_bb_depth_def sort_by_bounds_def py_sort_reverse_def unit_square_def)
  have "filter (\<lambda>p. heuristic_key ''heuristic.bbmax'' p = 1) r = [unit_square 0 1, unit_square 4 1]"
    using st f by simp
  with r so have "\<exists>r. depth_sort_bb_depth ?vps ''heuristic.bbmax'' = Inr r
           \<and> sorted_wrt (\<lambda>a c. heuristic_key ''heuristic.bbmax'' a \<ge> heuristic_key ''heuristic.bbmax'' c) r
           \<and> filter (\<lambda>p. heuristic_key ''heuristic.bbmax'' p = 1) r = [unit_square 0 1, unit_square 4 1]"
    by blast
  then show ?thesis using h ok e by (simp add: list_all_iff)
qed

section \<open>The BSP builder and the traversal: theorems\<close>

lemma round_half_less: "0 < n \<Longrightarrow> round_half n < n"
  by (auto simp: round_half_def elim!: oddE)

lemma kids_simps [simp]:
  "kids (n\<lparr>polygon_list := ps\<rparr>) = kids n"
  "kids (n\<lparr>is_leaf := l\<rparr>) = kids n"
  "kids (n\<lparr>front_node := f\<rparr>) = set_option f \<union> set_option (back_node n)"
  "kids (n\<lparr>back_node := b\<rparr>) = set_option (front_node n) \<union> set_option b"
  "kids new_BSPNode = {}"
  by (simp_all add: kids_def new_BSPNode_def)

lemma new_BSPNode_simps [simp]:
  "is_leaf new_BSPNode" "front_node new_BSPNode = None" "back_node new_BSPNode = None"
  "polygon_list new_BSPNode = []"
  by (simp_all add: new_BSPNode_def)

lemma loop_inv_append_front:
  assumes "loop_inv a hs h" and "verts p \<noteq> []"
  shows "loop_inv a hs (append_front a p h)"
proof (cases "front_node (h ! a)")
  case None
  have a: "a < length hs" "length hs \<le> length h" using assms(1) by (auto simp: loop_inv_def)
  have k: "kids (h ! a) = {length hs ..< length h}" using assms(1) by (auto simp: loop_inv_def)
  have e: "append_front a p h =
             h[a := (h ! a)\<lparr>front_node := Some (length h)\<rparr>] @ [new_BSPNode\<lparr>polygon_list := [p]\<rparr>]"
    by (simp add: append_front_def None)
  have bk: "set_option (back_node (h ! a)) = {length hs ..< length h}"
    using k None by (simp add: kids_def)
  show ?thesis
    unfolding e loop_inv_def
    using assms a bk
    by (auto simp: loop_inv_def nth_append nth_list_update less_Suc_eq)
next
  case (Some n)
  have a: "a < length hs" "length hs \<le> length h" using assms(1) by (auto simp: loop_inv_def)
  have k: "kids (h ! a) = {length hs ..< length h}" using assms(1) by (auto simp: loop_inv_def)
  have n: "length hs \<le> n" "n < length h" using k Some by (auto simp: kids_def)
  have e: "append_front a p h = h[n := (h ! n)\<lparr>polygon_list := polygon_list (h ! n) @ [p]\<rparr>]"
    by (simp add: append_front_def Some)
  show ?thesis
    unfolding e loop_inv_def
    using assms a n
    by (auto simp: loop_inv_def nth_list_update)
qed

lemma loop_inv_append_back:
  assumes "loop_inv a hs h" and "verts p \<noteq> []"
  shows "loop_inv a hs (append_back a p h)"
proof (cases "back_node (h ! a)")
  case None
  have a: "a < length hs" "length hs \<le> length h" using assms(1) by (auto simp: loop_inv_def)
  have k: "kids (h ! a) = {length hs ..< length h}" using assms(1) by (auto simp: loop_inv_def)
  have e: "append_back a p h =
             h[a := (h ! a)\<lparr>back_node := Some (length h)\<rparr>] @ [new_BSPNode\<lparr>polygon_list := [p]\<rparr>]"
    by (simp add: append_back_def None)
  have bk: "set_option (front_node (h ! a)) = {length hs ..< length h}"
    using k None by (simp add: kids_def)
  show ?thesis
    unfolding e loop_inv_def
    using assms a bk
    by (auto simp: loop_inv_def nth_append nth_list_update less_Suc_eq)
next
  case (Some n)
  have a: "a < length hs" "length hs \<le> length h" using assms(1) by (auto simp: loop_inv_def)
  have k: "kids (h ! a) = {length hs ..< length h}" using assms(1) by (auto simp: loop_inv_def)
  have n: "length hs \<le> n" "n < length h" using k Some by (auto simp: kids_def)
  have e: "append_back a p h = h[n := (h ! n)\<lparr>polygon_list := polygon_list (h ! n) @ [p]\<rparr>]"
    by (simp add: append_back_def Some)
  show ?thesis
    unfolding e loop_inv_def
    using assms a n
    by (auto simp: loop_inv_def nth_list_update)
qed

lemma cut_conflicting_verts:
  assumes "verts Q \<noteq> []" and "verts P \<noteq> []"
  shows "\<exists>rp rq. cut_conflicting Q P = Inr (rp, rq)
           \<and> (\<forall>f. rp = Some f \<longrightarrow> verts f \<noteq> []) \<and> (\<forall>f. rq = Some f \<longrightarrow> verts f \<noteq> [])"
proof -
  from cut_conflicting_result [OF assms] obtain fr bk rp rq where
    c: "cut_conflicting Q P = Inr (rp, rq)"
    and n1: "rp = None \<longleftrightarrow> length fr < 3 \<or> coordinate_deltas fr < 1 / 1000000"
    and n2: "rq = None \<longleftrightarrow> length bk < 3 \<or> coordinate_deltas bk < 1 / 1000000"
    and v1: "\<forall>f. rp = Some f \<longrightarrow> verts f = fr \<and> rgb_color f = rgb_color P
              \<and> stroke_color f = stroke_color P \<and> opacity f = opacity P
              \<and> stroke_opacity f = stroke_opacity P \<and> normal f = normal P"
    and v2: "\<forall>f. rq = Some f \<longrightarrow> verts f = bk \<and> rgb_color f = rgb_color P
              \<and> stroke_color f = stroke_color P \<and> opacity f = opacity P
              \<and> stroke_opacity f = stroke_opacity P \<and> normal f = normal P"
    by (elim exE conjE) (rule that)
  have "\<forall>f. rp = Some f \<longrightarrow> verts f \<noteq> []"
  proof (intro allI impI)
    fix f assume f: "rp = Some f"
    then have "verts f = fr" using v1 by simp
    moreover have "\<not> length fr < 3" using n1 f by auto
    ultimately show "verts f \<noteq> []" by auto
  qed
  moreover have "\<forall>f. rq = Some f \<longrightarrow> verts f \<noteq> []"
  proof (intro allI impI)
    fix f assume f: "rq = Some f"
    then have "verts f = bk" using v2 by simp
    moreover have "\<not> length bk < 3" using n2 f by auto
    ultimately show "verts f \<noteq> []" by auto
  qed
  ultimately show ?thesis using c by blast
qed

lemma partition_step_inv:
  assumes "loop_inv a hs h" and "verts plane \<noteq> []" and "verts p \<noteq> []"
  shows "\<exists>h'. partition_step plane a p h = Inr h' \<and> loop_inv a hs h'"
proof -
  obtain pos where pos: "relative_pos plane p = Inr pos"
    using relative_pos_total [OF assms(2)] by blast
  consider "pos = 1" | "pos = 0" | "pos \<noteq> 1 \<and> pos \<noteq> 0" by blast
  then show ?thesis
  proof cases
    case 1
    then show ?thesis
      using loop_inv_append_front [OF assms(1,3)] by (simp add: partition_step_def pos)
  next
    case 2
    obtain rp rq where c: "cut_conflicting plane p = Inr (rp, rq)"
      and v: "\<forall>f. rp = Some f \<longrightarrow> verts f \<noteq> []" "\<forall>f. rq = Some f \<longrightarrow> verts f \<noteq> []"
      using cut_conflicting_verts [OF assms(2,3)] by blast
    let ?h1 = "case rp of None \<Rightarrow> h | Some f \<Rightarrow> append_front a f h"
    let ?h2 = "case rq of None \<Rightarrow> ?h1 | Some g \<Rightarrow> append_back a g ?h1"
    have i1: "loop_inv a hs ?h1"
      using assms(1) v(1) by (cases rp) (simp_all add: loop_inv_append_front)
    have i2: "loop_inv a hs ?h2"
      using i1 v(2) by (cases rq) (simp_all add: loop_inv_append_back)
    have "partition_step plane a p h = Inr ?h2"
      using 2 by (simp add: partition_step_def pos c Let_def)
    with i2 show ?thesis by blast
  next
    case 3
    then show ?thesis
      using loop_inv_append_back [OF assms(1,3)] by (simp add: partition_step_def pos)
  qed
qed

lemma set_pop_rest: "set (pop_rest xs i) \<subseteq> set xs"
  unfolding pop_rest_def by (auto dest: in_set_takeD in_set_dropD)

lemma length_pop_rest: "i < length xs \<Longrightarrow> length (pop_rest xs i) = length xs - 1"
  unfolding pop_rest_def by auto

lemma partition_loop_inv:
  assumes "verts plane \<noteq> []"
  shows "loop_inv a hs h \<Longrightarrow> \<forall>p \<in> set vps. verts p \<noteq> [] \<Longrightarrow> n \<le> length vps \<Longrightarrow>
         \<exists>h'. partition_loop plane a vps n h = Inr h' \<and> loop_inv a hs h'"
proof (induction n arbitrary: vps h)
  case 0
  then show ?case by simp
next
  case (Suc i)
  have i: "i < length vps" using Suc.prems(3) by simp
  then have "verts (vps ! i) \<noteq> []" using Suc.prems(2) by simp
  then obtain h1 where s: "partition_step plane a (vps ! i) h = Inr h1" and l: "loop_inv a hs h1"
    using partition_step_inv [OF Suc.prems(1) assms] by blast
  have "\<forall>p \<in> set (pop_rest vps i). verts p \<noteq> []"
    using Suc.prems(2) set_pop_rest [of vps i] by blast
  moreover have "i \<le> length (pop_rest vps i)" using i by (simp add: length_pop_rest)
  ultimately obtain h' where "partition_loop plane a (pop_rest vps i) i h1 = Inr h'"
      and "loop_inv a hs h'"
    using Suc.IH [OF l] by blast
  then show ?case using s by simp
qed

lemma loop_inv_fresh:
  "loop_inv a hs h \<Longrightarrow> length hs \<le> c \<Longrightarrow> c < length h \<Longrightarrow> fresh_leaf (h ! c)"
  by (simp add: loop_inv_def fresh_leaf_def node_ok_def)

lemma loop_inv_start:
  assumes "a < length h" and "kids (h ! a) = {}"
  shows "loop_inv a (h[a := (h ! a)\<lparr>is_leaf := False\<rparr>]) (h[a := (h ! a)\<lparr>is_leaf := False\<rparr>])"
  using assms by (auto simp: loop_inv_def)

lemma nth_pop_rest_mem: "k < length xs \<Longrightarrow> xs ! k \<in> set xs"
  by simp

text \<open>What splitting a leaf with more than one polygon does to the store.\<close>

lemma split_node_result:
  assumes "a < length h" and "kids (h ! a) = {}" and "node_ok (h ! a)"
  shows "\<exists>h' plane. split_node a h = Inr h' \<and> length h \<le> length h'
           \<and> (\<forall>x < length h. x \<noteq> a \<longrightarrow> h' ! x = h ! x)
           \<and> \<not> is_leaf (h' ! a) \<and> polygon_list (h' ! a) = [plane]
           \<and> plane \<in> set (polygon_list (h ! a))
           \<and> kids (h' ! a) = {length h ..< length h'}
           \<and> (\<forall>c. length h \<le> c \<and> c < length h' \<longrightarrow> fresh_leaf (h' ! c))"
proof -
  let ?vps = "polygon_list (h ! a)"
  let ?k = "round_half (length ?vps)"
  let ?plane = "?vps ! ?k"
  let ?rest = "pop_rest ?vps ?k"
  let ?h0 = "h[a := (h ! a)\<lparr>is_leaf := False\<rparr>]"
  have ne: "?vps \<noteq> []" and ok: "\<forall>p \<in> set ?vps. verts p \<noteq> []"
    using assms(3) by (auto simp: node_ok_def)
  have k: "?k < length ?vps" using ne by (simp add: round_half_less)
  then have pin: "?plane \<in> set ?vps" by simp
  then have pv: "verts ?plane \<noteq> []" using ok by blast
  have rok: "\<forall>p \<in> set ?rest. verts p \<noteq> []" using ok set_pop_rest [of ?vps ?k] by blast
  have l0: "loop_inv a ?h0 ?h0" by (rule loop_inv_start [OF assms(1,2)])
  obtain h1 where l: "partition_loop ?plane a ?rest (length ?rest) ?h0 = Inr h1"
    and i: "loop_inv a ?h0 h1"
    using partition_loop_inv [OF pv l0 rok] by blast
  let ?h' = "h1[a := (h1 ! a)\<lparr>polygon_list := [?plane]\<rparr>]"
  have s: "split_node a h = Inr ?h'" using l by (simp add: split_node_def Let_def)
  have len: "length h \<le> length h1" and a1: "a < length h1"
    using i assms(1) by (auto simp: loop_inv_def)
  have same: "\<forall>x < length h. x \<noteq> a \<longrightarrow> ?h' ! x = h ! x"
    using i by (auto simp: loop_inv_def)
  have leaf: "\<not> is_leaf (?h' ! a)" using i a1 assms(1) by (simp add: loop_inv_def)
  have pl: "polygon_list (?h' ! a) = [?plane]" using a1 by simp
  have kd: "kids (?h' ! a) = {length h ..< length ?h'}" using i a1 by (simp add: loop_inv_def)
  have fr: "\<forall>c. length h \<le> c \<and> c < length ?h' \<longrightarrow> fresh_leaf (?h' ! c)"
  proof (intro allI impI)
    fix c assume c: "length h \<le> c \<and> c < length ?h'"
    then have "c \<noteq> a" using assms(1) by simp
    then have "?h' ! c = h1 ! c" by simp
    moreover have "fresh_leaf (h1 ! c)" using loop_inv_fresh [OF i, of c] c by simp
    ultimately show "fresh_leaf (?h' ! c)" by simp
  qed
  show ?thesis
    using s len same leaf pl pin kd fr by (intro exI [of _ ?h'] exI [of _ ?plane]) simp
qed

lemma pass_ext_refl: "pass_ext hs ns hs"
  by (auto simp: pass_ext_def)

lemma pass_ext_split:
  assumes e: "pass_ext hs ns h" and a: "a \<in> set ns" "a < length hs"
    and un: "h ! a = hs ! a" and lf: "is_leaf (hs ! a)" "kids (hs ! a) = {}" "node_ok (hs ! a)"
  shows "\<exists>h'. split_node a h = Inr h' \<and> pass_ext hs ns h'"
proof -
  have al: "a < length h" using e a(2) by (simp add: pass_ext_def)
  from split_node_result [OF al] un lf obtain h' plane where
    s: "split_node a h = Inr h'" and len: "length h \<le> length h'"
    and same: "\<forall>x < length h. x \<noteq> a \<longrightarrow> h' ! x = h ! x"
    and nl: "\<not> is_leaf (h' ! a)" and pl: "polygon_list (h' ! a) = [plane]"
    and pin: "plane \<in> set (polygon_list (h ! a))"
    and kd: "kids (h' ! a) = {length h ..< length h'}"
    and fr: "\<forall>c. length h \<le> c \<and> c < length h' \<longrightarrow> fresh_leaf (h' ! c)"
    by auto
  have hl: "length hs \<le> length h" using e by (simp add: pass_ext_def)
  have oka: "node_ok (h' ! a)" using pl pin un lf(3) by (auto simp: node_ok_def)
  have 1: "length hs \<le> length h'" using hl len by simp
  have 2: "h' ! x = hs ! x
         \<or> (x \<in> set ns \<and> \<not> is_leaf (h' ! x) \<and> length (polygon_list (h' ! x)) = 1 \<and> node_ok (h' ! x)
            \<and> kids (h' ! x) \<subseteq> {length hs ..< length h'})" if x: "x < length hs" for x
  proof (cases "x = a")
    case True
    then show ?thesis using a(1) nl pl oka kd hl by auto
  next
    case False
    then have "h' ! x = h ! x" using same x hl by simp
    moreover have "h ! x = hs ! x
         \<or> (x \<in> set ns \<and> \<not> is_leaf (h ! x) \<and> length (polygon_list (h ! x)) = 1 \<and> node_ok (h ! x)
            \<and> kids (h ! x) \<subseteq> {length hs ..< length h})"
      using e x by (simp add: pass_ext_def)
    ultimately show ?thesis using len by auto
  qed
  have 3: "fresh_leaf (h' ! c) \<and> (\<exists>x \<in> set ns. x < length hs \<and> \<not> is_leaf (h' ! x) \<and> c \<in> kids (h' ! x))"
    if c: "length hs \<le> c \<and> c < length h'" for c
  proof (cases "c < length h")
    case True
    then have ca: "c \<noteq> a" using c a(2) by simp
    then have eq: "h' ! c = h ! c" using same True by simp
    from e c True obtain x where x: "x \<in> set ns" "x < length hs" "\<not> is_leaf (h ! x)" "c \<in> kids (h ! x)"
      and f: "fresh_leaf (h ! c)"
      by (auto simp: pass_ext_def)
    have "x \<noteq> a" using x(3) un lf(1) by auto
    then have "h' ! x = h ! x" using same x(2) hl by simp
    then show ?thesis using eq f x by auto
  next
    case False
    then have "c \<in> kids (h' ! a)" using kd c by simp
    moreover have "fresh_leaf (h' ! c)" using fr c False by simp
    ultimately show ?thesis using a nl by blast
  qed
  from 1 2 3 have "pass_ext hs ns h'" unfolding pass_ext_def by blast
  with s show ?thesis by blast
qed

lemma wf_store_node:
  "wf_store h \<Longrightarrow> a < length h \<Longrightarrow> node_ok (h ! a) \<and> (is_leaf (h ! a) \<longrightarrow> kids (h ! a) = {})"
  unfolding wf_store_def node_ok_def by blast

lemma partition_nodes_inv:
  assumes wf: "wf_store hs" and lt: "\<forall>a \<in> set ns. a < length hs \<and> is_leaf (hs ! a)"
  shows "pass_ext hs ns h \<Longrightarrow> set as \<subseteq> set ns \<Longrightarrow>
         \<exists>c' h'. partition_nodes as (c, h) = Inr (c', h') \<and> pass_ext hs ns h'
            \<and> (\<not> c' \<longrightarrow> \<not> c \<and> h' = h \<and> (\<forall>a \<in> set as. length (polygon_list (h ! a)) \<le> 1))"
proof (induction as arbitrary: c h)
  case Nil
  then show ?case by simp
next
  case (Cons a as)
  have a: "a \<in> set ns" "a < length hs" "is_leaf (hs ! a)"
    using Cons.prems(2) lt by auto
  have sub: "set as \<subseteq> set ns" using Cons.prems(2) by simp
  show ?case
  proof (cases "length (polygon_list (h ! a)) > 1")
    case True
    have "h ! a = hs ! a
         \<or> (a \<in> set ns \<and> \<not> is_leaf (h ! a) \<and> length (polygon_list (h ! a)) = 1 \<and> node_ok (h ! a)
            \<and> kids (h ! a) \<subseteq> {length hs ..< length h})"
      using Cons.prems(1) a(2) unfolding pass_ext_def by blast
    then have un: "h ! a = hs ! a" using True by auto
    have k: "kids (hs ! a) = {}" "node_ok (hs ! a)"
      using wf_store_node [OF wf a(2)] a(3) by simp_all
    obtain h1 where s: "split_node a h = Inr h1" and e: "pass_ext hs ns h1"
      using pass_ext_split [OF Cons.prems(1) a(1,2) un a(3) k] by blast
    obtain c' h' where r: "partition_nodes as (True, h1) = Inr (c', h')" "pass_ext hs ns h'"
      and c': "\<not> c' \<longrightarrow> \<not> True \<and> h' = h1 \<and> (\<forall>a \<in> set as. length (polygon_list (h1 ! a)) \<le> 1)"
      using Cons.IH [OF e sub, of True] by blast
    have ct: "c'" using c' by blast
    have pe: "partition_nodes (a # as) (c, h) = Inr (c', h')" using True s r(1) by simp
    show ?thesis
      by (rule exI [of _ c'], rule exI [of _ h']) (use pe ct r(2) in blast)
  next
    case False
    obtain c' h' where r: "partition_nodes as (c, h) = Inr (c', h')" "pass_ext hs ns h'"
      and c': "\<not> c' \<longrightarrow> \<not> c \<and> h' = h \<and> (\<forall>a \<in> set as. length (polygon_list (h ! a)) \<le> 1)"
      using Cons.IH [OF Cons.prems(1) sub, of c] by blast
    have pe: "partition_nodes (a # as) (c, h) = Inr (c', h')" using False r(1) by simp
    have cc: "\<not> c' \<longrightarrow> \<not> c \<and> h' = h \<and> (\<forall>x \<in> set (a # as). length (polygon_list (h ! x)) \<le> 1)"
      using c' False by auto
    show ?thesis
      by (rule exI [of _ c'], rule exI [of _ h']) (use pe cc r(2) in blast)
  qed
qed

lemma child_list:
  "\<exists>ks. (case back_node n of None \<Rightarrow> (case front_node n of None \<Rightarrow> ns | Some f \<Rightarrow> ns @ [f])
          | Some b \<Rightarrow> (case front_node n of None \<Rightarrow> ns | Some f \<Rightarrow> ns @ [f]) @ [b]) = ns @ ks
        \<and> set ks = kids n"
  by (cases "front_node n"; cases "back_node n") (auto simp: kids_def)

lemma set_update_leaf_nodes:
  "i \<le> length ns \<Longrightarrow>
   set (update_leaf_nodes h i ns) =
     set (drop i ns) \<union> {x \<in> set (take i ns). is_leaf (h ! x)}
     \<union> (\<Union>x \<in> {x \<in> set (take i ns). \<not> is_leaf (h ! x)}. kids (h ! x))"
proof (induction i arbitrary: ns)
  case 0
  then show ?case by simp
next
  case (Suc i)
  have i: "i < length ns" using Suc.prems by simp
  have t: "take (Suc i) ns = take i ns @ [ns ! i]" using i by (simp add: take_Suc_conv_app_nth)
  have d: "drop i ns = ns ! i # drop (Suc i) ns" using i by (simp add: Cons_nth_drop_Suc)
  show ?case
  proof (cases "is_leaf (h ! (ns ! i))")
    case True
    have "set (update_leaf_nodes h (Suc i) ns) = set (update_leaf_nodes h i ns)"
      using True by simp
    also have "\<dots> = set (drop i ns) \<union> {x \<in> set (take i ns). is_leaf (h ! x)}
           \<union> (\<Union>x \<in> {x \<in> set (take i ns). \<not> is_leaf (h ! x)}. kids (h ! x))"
      using Suc.IH [of ns] i by simp
    also have "\<dots> = set (drop (Suc i) ns) \<union> {x \<in> set (take (Suc i) ns). is_leaf (h ! x)}
           \<union> (\<Union>x \<in> {x \<in> set (take (Suc i) ns). \<not> is_leaf (h ! x)}. kids (h ! x))"
      unfolding t d using True by auto
    finally show ?thesis .
  next
    case False
    obtain ks where ks: "(case back_node (h ! (ns ! i)) of
             None \<Rightarrow> (case front_node (h ! (ns ! i)) of None \<Rightarrow> ns | Some f \<Rightarrow> ns @ [f])
           | Some b \<Rightarrow> (case front_node (h ! (ns ! i)) of None \<Rightarrow> ns | Some f \<Rightarrow> ns @ [f]) @ [b])
           = ns @ ks" and sk: "set ks = kids (h ! (ns ! i))"
      using child_list [where n = "h ! (ns ! i)" and ns = ns] by blast
    let ?ns' = "pop_rest (ns @ ks) i"
    have p: "?ns' = take i ns @ drop (Suc i) ns @ ks" using i by (simp add: pop_rest_def)
    have u: "update_leaf_nodes h (Suc i) ns = update_leaf_nodes h i ?ns'"
      using False ks by (simp add: Let_def)
    have li: "i \<le> length ?ns'" using i by (simp add: p)
    have tk: "take i ?ns' = take i ns" using i by (simp add: p)
    have dr: "drop i ?ns' = drop (Suc i) ns @ ks" using i by (simp add: p)
    have "set (update_leaf_nodes h i ?ns') =
            set (drop i ?ns') \<union> {x \<in> set (take i ?ns'). is_leaf (h ! x)}
           \<union> (\<Union>x \<in> {x \<in> set (take i ?ns'). \<not> is_leaf (h ! x)}. kids (h ! x))"
      by (rule Suc.IH [OF li])
    also have "\<dots> = set (drop (Suc i) ns) \<union> {x \<in> set (take (Suc i) ns). is_leaf (h ! x)}
           \<union> (\<Union>x \<in> {x \<in> set (take (Suc i) ns). \<not> is_leaf (h ! x)}. kids (h ! x))"
      unfolding tk dr t using False sk by auto
    finally show ?thesis using u by simp
  qed
qed

lemma set_update_leaf_nodes_all:
  "set (update_leaf_nodes h (length ns) ns) =
     {x \<in> set ns. is_leaf (h ! x)} \<union> (\<Union>x \<in> {x \<in> set ns. \<not> is_leaf (h ! x)}. kids (h ! x))"
  using set_update_leaf_nodes [of "length ns" ns h] by simp

lemma pass_ext_old:
  "pass_ext hs ns h \<Longrightarrow> x < length hs \<Longrightarrow>
   h ! x = hs ! x
     \<or> (x \<in> set ns \<and> \<not> is_leaf (h ! x) \<and> length (polygon_list (h ! x)) = 1 \<and> node_ok (h ! x)
        \<and> kids (h ! x) \<subseteq> {length hs ..< length h})"
  unfolding pass_ext_def by blast

lemma pass_ext_new:
  "pass_ext hs ns h \<Longrightarrow> length hs \<le> c \<Longrightarrow> c < length h \<Longrightarrow>
   fresh_leaf (h ! c) \<and> (\<exists>x \<in> set ns. x < length hs \<and> \<not> is_leaf (h ! x) \<and> c \<in> kids (h ! x))"
  unfolding pass_ext_def by blast

lemma pass_ext_length: "pass_ext hs ns h \<Longrightarrow> length hs \<le> length h"
  unfolding pass_ext_def by blast

lemma wf_store_kids: "wf_store h \<Longrightarrow> a < length h \<Longrightarrow> c \<in> kids (h ! a) \<Longrightarrow> a < c \<and> c < length h"
  unfolding wf_store_def by blast

lemma wf_store_single:
  "wf_store h \<Longrightarrow> a < length h \<Longrightarrow> \<not> is_leaf (h ! a) \<Longrightarrow> length (polygon_list (h ! a)) = 1"
  unfolding wf_store_def by blast

lemma wf_storeI:
  assumes "\<And>a c. a < length h \<Longrightarrow> c \<in> kids (h ! a) \<Longrightarrow> a < c \<and> c < length h"
    and "\<And>a. a < length h \<Longrightarrow> is_leaf (h ! a) \<Longrightarrow> kids (h ! a) = {}"
    and "\<And>a. a < length h \<Longrightarrow> node_ok (h ! a)"
    and "\<And>a. a < length h \<Longrightarrow> \<not> is_leaf (h ! a) \<Longrightarrow> length (polygon_list (h ! a)) = 1"
  shows "wf_store h"
  unfolding wf_store_def using assms unfolding node_ok_def by blast

lemma pass_ext_wf:
  assumes wf: "wf_store hs" and e: "pass_ext hs ns h"
  shows "wf_store h"
proof (rule wf_storeI)
  fix a c assume a: "a < length h" and c: "c \<in> kids (h ! a)"
  show "a < c \<and> c < length h"
  proof (cases "a < length hs")
    case True
    from pass_ext_old [OF e True] show ?thesis
    proof
      assume "h ! a = hs ! a"
      then show ?thesis using wf_store_kids [OF wf True, of c] c pass_ext_length [OF e] by simp
    next
      assume "a \<in> set ns \<and> \<not> is_leaf (h ! a) \<and> length (polygon_list (h ! a)) = 1 \<and> node_ok (h ! a)
        \<and> kids (h ! a) \<subseteq> {length hs ..< length h}"
      then show ?thesis using c True by auto
    qed
  next
    case False
    then have "fresh_leaf (h ! a)" using pass_ext_new [OF e, of a] a by simp
    then show ?thesis using c by (simp add: fresh_leaf_def)
  qed
next
  fix a assume a: "a < length h" and l: "is_leaf (h ! a)"
  show "kids (h ! a) = {}"
  proof (cases "a < length hs")
    case True
    from pass_ext_old [OF e True] l have "h ! a = hs ! a" by blast
    then show ?thesis using wf_store_node [OF wf True] l by simp
  next
    case False
    then have "fresh_leaf (h ! a)" using pass_ext_new [OF e, of a] a by simp
    then show ?thesis by (simp add: fresh_leaf_def)
  qed
next
  fix a assume a: "a < length h"
  show "node_ok (h ! a)"
  proof (cases "a < length hs")
    case True
    from pass_ext_old [OF e True] show ?thesis using wf_store_node [OF wf True] by auto
  next
    case False
    then have "fresh_leaf (h ! a)" using pass_ext_new [OF e, of a] a by simp
    then show ?thesis by (simp add: fresh_leaf_def)
  qed
next
  fix a assume a: "a < length h" and l: "\<not> is_leaf (h ! a)"
  show "length (polygon_list (h ! a)) = 1"
  proof (cases "a < length hs")
    case True
    from pass_ext_old [OF e True] show ?thesis using wf_store_single [OF wf True] l by auto
  next
    case False
    then have "fresh_leaf (h ! a)" using pass_ext_new [OF e, of a] a by simp
    then show ?thesis using l by (simp add: fresh_leaf_def)
  qed
qed

lemma pass_ext_leaves:
  assumes wf: "wf_store hs" and lt: "leaves_tracked hs ns" and e: "pass_ext hs ns h"
  shows "leaves_tracked h (update_leaf_nodes h (length ns) ns)"
proof -
  have in_ns: "\<And>a. a \<in> set ns \<Longrightarrow> a < length hs \<and> is_leaf (hs ! a)"
    using lt unfolding leaves_tracked_def by blast
  have all_ns: "\<And>a. a < length hs \<Longrightarrow> is_leaf (hs ! a) \<Longrightarrow> a \<in> set ns"
    using lt unfolding leaves_tracked_def by blast
  let ?ns' = "update_leaf_nodes h (length ns) ns"
  have s: "set ?ns' = {x \<in> set ns. is_leaf (h ! x)}
          \<union> (\<Union>x \<in> {x \<in> set ns. \<not> is_leaf (h ! x)}. kids (h ! x))"
    by (rule set_update_leaf_nodes_all)
  have 1: "a \<in> set ?ns'" if a: "a < length h" and l: "is_leaf (h ! a)" for a
  proof (cases "a < length hs")
    case True
    from pass_ext_old [OF e True] l have "h ! a = hs ! a" by blast
    then have "a \<in> set ns" using all_ns [OF True] l by simp
    then show ?thesis unfolding s using l by blast
  next
    case False
    then obtain x where "x \<in> set ns" "\<not> is_leaf (h ! x)" "a \<in> kids (h ! x)"
      using pass_ext_new [OF e, of a] a by auto
    then show ?thesis unfolding s by blast
  qed
  have 2: "a < length h \<and> is_leaf (h ! a)" if a: "a \<in> set ?ns'" for a
  proof -
    from a s consider "a \<in> set ns" "is_leaf (h ! a)"
      | x where "x \<in> set ns" "\<not> is_leaf (h ! x)" "a \<in> kids (h ! x)" by blast
    then show ?thesis
    proof cases
      case 1
      then show ?thesis using in_ns [of a] pass_ext_length [OF e] by simp
    next
      case 2
      have x: "x < length hs" "is_leaf (hs ! x)" using in_ns [OF 2(1)] by simp_all
      from pass_ext_old [OF e x(1)] 2(2) x(2)
      have "kids (h ! x) \<subseteq> {length hs ..< length h}" by auto
      then have "length hs \<le> a" "a < length h" using 2(3) by auto
      then show ?thesis using pass_ext_new [OF e, of a] by (simp add: fresh_leaf_def)
    qed
  qed
  show ?thesis unfolding leaves_tracked_def using 1 2 by blast
qed

lemma bsp_partition_inv:
  assumes wf: "wf_store hs" and lt: "leaves_tracked hs ns"
  shows "\<exists>c h' ns'. bsp_partition hs ns = Inr (c, h', ns') \<and> wf_store h' \<and> leaves_tracked h' ns'
           \<and> length hs \<le> length h'
           \<and> (\<not> c \<longrightarrow> h' = hs \<and> (\<forall>a \<in> set ns. length (polygon_list (hs ! a)) \<le> 1))"
proof -
  have l2: "\<forall>a \<in> set ns. a < length hs \<and> is_leaf (hs ! a)"
    using lt unfolding leaves_tracked_def by blast
  obtain c h' where p: "partition_nodes ns (False, hs) = Inr (c, h')" and e: "pass_ext hs ns h'"
    and u: "\<not> c \<longrightarrow> \<not> False \<and> h' = hs \<and> (\<forall>a \<in> set ns. length (polygon_list (hs ! a)) \<le> 1)"
    using partition_nodes_inv [OF wf l2 pass_ext_refl subset_refl, of False] by blast
  let ?ns' = "update_leaf_nodes h' (length ns) ns"
  have "bsp_partition hs ns = Inr (c, h', ?ns')" using p by (simp add: bsp_partition_def)
  moreover have "wf_store h'" by (rule pass_ext_wf [OF wf e])
  moreover have "leaves_tracked h' ?ns'" by (rule pass_ext_leaves [OF wf lt e])
  moreover have "length hs \<le> length h'" by (rule pass_ext_length [OF e])
  ultimately show ?thesis using u by blast
qed

lemma leaves_single:
  assumes wf: "wf_store h" and lt: "leaves_tracked h ns"
    and le: "\<forall>a \<in> set ns. length (polygon_list (h ! a)) \<le> 1"
  shows "\<forall>a < length h. length (polygon_list (h ! a)) = 1"
proof (intro allI impI)
  fix a assume a: "a < length h"
  show "length (polygon_list (h ! a)) = 1"
  proof (cases "is_leaf (h ! a)")
    case True
    then have "a \<in> set ns" using lt a unfolding leaves_tracked_def by blast
    then have "length (polygon_list (h ! a)) \<le> 1" using le by blast
    moreover have "polygon_list (h ! a) \<noteq> []"
      using wf_store_node [OF wf a] by (simp add: node_ok_def)
    ultimately show ?thesis by (cases "polygon_list (h ! a)") auto
  next
    case False
    then show ?thesis by (rule wf_store_single [OF wf a])
  qed
qed

lemma bsp_cycles_result:
  "wf_store h \<Longrightarrow> leaves_tracked h ns \<Longrightarrow> h \<noteq> [] \<Longrightarrow>
   bsp_cycles cycle_limit j h ns = Inl RecursionError
   \<or> (\<exists>h'. bsp_cycles cycle_limit j h ns = Inr h' \<and> built h')"
proof (induction cycle_limit j h ns rule: bsp_cycles.induct)
  case (1 cycle_limit j h ns)
  obtain c h' ns' where p: "bsp_partition h ns = Inr (c, h', ns')"
    and wf': "wf_store h'" and lt': "leaves_tracked h' ns'" and ln: "length h \<le> length h'"
    and u: "\<not> c \<longrightarrow> h' = h \<and> (\<forall>a \<in> set ns. length (polygon_list (h ! a)) \<le> 1)"
    using bsp_partition_inv [OF "1.prems"(1,2)] by blast
  show ?case
  proof (cases c)
    case False
    then have "h' = h" and le: "\<forall>a \<in> set ns. length (polygon_list (h ! a)) \<le> 1"
      using u by auto
    have "bsp_cycles cycle_limit j h ns = Inr h'"
      using p False by (subst bsp_cycles.simps) simp
    moreover have "built h'"
      unfolding built_def \<open>h' = h\<close>
      using "1.prems" leaves_single [OF "1.prems"(1,2) le] by simp
    ultimately show ?thesis by blast
  next
    case True
    show ?thesis
    proof (cases "j + 1 \<ge> cycle_limit")
      case g: True
      have "bsp_cycles cycle_limit j h ns = Inl RecursionError"
        using p True g by (subst bsp_cycles.simps) simp
      then show ?thesis by simp
    next
      case g: False
      have ne: "h' \<noteq> []" using ln "1.prems"(3) by auto
      have e: "bsp_cycles cycle_limit j h ns = bsp_cycles cycle_limit (j + 1) h' ns'"
        using p True g by (subst bsp_cycles.simps) simp
      have "bsp_cycles cycle_limit (j + 1) h' ns' = Inl RecursionError
            \<or> (\<exists>h''. bsp_cycles cycle_limit (j + 1) h' ns' = Inr h'' \<and> built h'')"
        using "1.IH" [OF p refl refl True g wf' lt' ne] .
      then show ?thesis unfolding e .
    qed
  qed
qed

lemma option_list_kids:
  "set ((case front_node n of None \<Rightarrow> [] | Some f \<Rightarrow> [f])
        @ (case back_node n of None \<Rightarrow> [] | Some b \<Rightarrow> [b])) = kids n"
  by (cases "front_node n"; cases "back_node n") (auto simp: kids_def)

lemma loop_inv_root_wf:
  assumes i: "loop_inv 0 [r] h" and r: "\<not> is_leaf r" "polygon_list r = [plane]" "verts plane \<noteq> []"
  shows "wf_store h \<and> h \<noteq> []
       \<and> leaves_tracked h ((case front_node (h ! 0) of None \<Rightarrow> [] | Some f \<Rightarrow> [f])
                            @ (case back_node (h ! 0) of None \<Rightarrow> [] | Some b \<Rightarrow> [b]))"
proof -
  have len: "1 \<le> length h" using i by (simp add: loop_inv_def)
  have k: "kids (h ! 0) = {1 ..< length h}" using i by (simp add: loop_inv_def)
  have l0: "\<not> is_leaf (h ! 0)" and p0: "polygon_list (h ! 0) = [plane]"
    using i r by (simp_all add: loop_inv_def)
  have fr: "fresh_leaf (h ! c)" if "1 \<le> c" "c < length h" for c
    using loop_inv_fresh [OF i, of c] that by simp
  have wf: "wf_store h"
  proof (rule wf_storeI)
    fix a c assume "a < length h" "c \<in> kids (h ! a)"
    then show "a < c \<and> c < length h"
      using k fr [of a] by (cases "a = 0") (auto simp: fresh_leaf_def)
  next
    fix a assume "a < length h" "is_leaf (h ! a)"
    then show "kids (h ! a) = {}"
      using l0 fr [of a] by (cases "a = 0") (auto simp: fresh_leaf_def)
  next
    fix a assume "a < length h"
    then show "node_ok (h ! a)"
      using p0 r(3) fr [of a] by (cases "a = 0") (auto simp: fresh_leaf_def node_ok_def)
  next
    fix a assume "a < length h" "\<not> is_leaf (h ! a)"
    then show "length (polygon_list (h ! a)) = 1"
      using p0 fr [of a] by (cases "a = 0") (auto simp: fresh_leaf_def)
  qed
  have lt: "leaves_tracked h ((case front_node (h ! 0) of None \<Rightarrow> [] | Some f \<Rightarrow> [f])
                            @ (case back_node (h ! 0) of None \<Rightarrow> [] | Some b \<Rightarrow> [b]))"
    unfolding leaves_tracked_def option_list_kids k
  proof (intro conjI allI impI ballI)
    fix a assume "a < length h" "is_leaf (h ! a)"
    then show "a \<in> {1 ..< length h}" using l0 by (cases "a = 0") auto
  next
    fix a assume "a \<in> {1 ..< length h}"
    then show "a < length h" by simp
  next
    fix a assume "a \<in> {1 ..< length h}"
    then show "is_leaf (h ! a)" using fr [of a] by (simp add: fresh_leaf_def)
  qed
  show ?thesis using wf lt len by auto
qed

lemma depth_sort_bsp_result:
  assumes ne: "view_polygons \<noteq> []" and ok: "\<forall>p \<in> set view_polygons. verts p \<noteq> []"
  shows "depth_sort_bsp view_polygons cycle_limit = Inl RecursionError
       \<or> (\<exists>h. depth_sort_bsp view_polygons cycle_limit = Inr h \<and> built h)"
proof -
  let ?k = "round_half (length view_polygons)"
  let ?plane = "view_polygons ! ?k"
  let ?rest = "pop_rest view_polygons ?k"
  let ?r1 = "new_BSPNode\<lparr>polygon_list := [?plane]\<rparr>"
  have k: "?k < length view_polygons" using ne by (simp add: round_half_less)
  then have pv: "verts ?plane \<noteq> []" using ok by simp
  have rok: "\<forall>p \<in> set ?rest. verts p \<noteq> []" using ok set_pop_rest [of view_polygons ?k] by blast
  show ?thesis
  proof (cases "length ?rest = 0")
    case True
    have "depth_sort_bsp view_polygons cycle_limit = Inr [?r1]"
      using ne True by (simp add: depth_sort_bsp_def Let_def)
    moreover have "built [?r1]"
      unfolding built_def using pv by (auto intro!: wf_storeI simp: node_ok_def)
    ultimately show ?thesis by blast
  next
    case False
    let ?hs = "[?r1\<lparr>is_leaf := False\<rparr>]"
    have l0: "loop_inv 0 ?hs ?hs" by (auto simp: loop_inv_def)
    obtain h where l: "partition_loop ?plane 0 ?rest (length ?rest) ?hs = Inr h"
      and i: "loop_inv 0 ?hs h"
      using partition_loop_inv [OF pv l0 rok] by blast
    let ?ln = "(case front_node (h ! 0) of None \<Rightarrow> [] | Some f \<Rightarrow> [f])
               @ (case back_node (h ! 0) of None \<Rightarrow> [] | Some b \<Rightarrow> [b])"
    have e: "depth_sort_bsp view_polygons cycle_limit = bsp_cycles cycle_limit 0 h ?ln"
      using ne False l by (simp add: depth_sort_bsp_def Let_def)
    have w: "wf_store h \<and> h \<noteq> [] \<and> leaves_tracked h ?ln"
      by (rule loop_inv_root_wf [OF i, of ?plane]) (simp_all add: pv)
    show ?thesis unfolding e using bsp_cycles_result [of h ?ln cycle_limit 0] w by blast
  qed
qed

lemma traversal_acc:
  "bsp_tree_to_view_polygons n h r vps cam =
     (case bsp_tree_to_view_polygons n h r [] cam of
        None \<Rightarrow> None
      | Some (Inl e) \<Rightarrow> Some (Inl e)
      | Some (Inr out) \<Rightarrow> Some (Inr (vps @ out)))"
proof (induction n arbitrary: r vps)
  case 0
  show ?case by simp
next
  case (Suc n)
  show ?case
  proof (cases r)
    case None
    then show ?thesis by simp
  next
    case (Some a)
    note IH1 = Suc.IH [of "back_node (h ! a)"] and IH2 = Suc.IH [of "front_node (h ! a)"]
    show ?thesis
      unfolding Some bsp_tree_to_view_polygons.simps Let_def
      apply (subst (1 2 3 4) IH1)
      apply (subst (1 2 3 4) IH2)
      by (simp split: list.splits option.splits sum.splits)
  qed
qed

lemma traversal_fuel_Suc:
  "bsp_tree_to_view_polygons n h r vps cam = Some x \<Longrightarrow>
   bsp_tree_to_view_polygons (Suc n) h r vps cam = Some x"
proof (induction n arbitrary: r vps x)
  case 0
  then show ?case by simp
next
  case (Suc n)
  show ?case
  proof (cases r)
    case None
    then show ?thesis using Suc.prems by simp
  next
    case (Some a)
    show ?thesis
      using Suc.prems
      by (auto simp: Some Let_def split: list.splits option.splits sum.splits if_splits
               dest!: Suc.IH)
  qed
qed

lemma traversal_fuel_mono:
  "bsp_tree_to_view_polygons n h r vps cam = Some x \<Longrightarrow> n \<le> m \<Longrightarrow>
   bsp_tree_to_view_polygons m h r vps cam = Some x"
  by (induction m) (auto simp: le_Suc_eq traversal_fuel_Suc)

lemma traversal_total:
  assumes wf: "wf_store h"
  shows "r = None \<and> 0 < n \<or> (\<exists>a. r = Some a \<and> a < length h \<and> length h - a < n) \<Longrightarrow>
         \<exists>out. bsp_tree_to_view_polygons n h r [] cam = Some (Inr out)"
proof (induction n arbitrary: r)
  case 0
  then show ?case by simp
next
  case (Suc n)
  show ?case
  proof (cases r)
    case None
    then show ?thesis by simp
  next
    case (Some a)
    then have a: "a < length h" "length h - a < Suc n" using Suc.prems by auto
    have child: "\<exists>out. bsp_tree_to_view_polygons n h c [] cam = Some (Inr out)"
      if "c = front_node (h ! a) \<or> c = back_node (h ! a)" for c
    proof (cases c)
      case None
      have "0 < n" using a by (cases n) auto
      then show ?thesis using None Suc.IH [of None] by simp
    next
      case (Some k)
      then have "k \<in> kids (h ! a)" using that by (auto simp: kids_def)
      then have "a < k" "k < length h" using wf_store_kids [OF wf a(1)] by auto
      then show ?thesis using Some a Suc.IH [of "Some k"] by auto
    qed
    obtain fs where fs: "bsp_tree_to_view_polygons n h (front_node (h ! a)) [] cam = Some (Inr fs)"
      using child by blast
    obtain bs where bs: "bsp_tree_to_view_polygons n h (back_node (h ! a)) [] cam = Some (Inr bs)"
      using child by blast
    have ok: "node_ok (h ! a)" using wf_store_node [OF wf a(1)] by simp
    then obtain p ps where p: "polygon_list (h ! a) = p # ps" and "verts p \<noteq> []"
      by (cases "polygon_list (h ! a)") (auto simp: node_ok_def)
    then obtain v vs where v: "verts p = v # vs" by (cases "verts p") auto
    show ?thesis
      unfolding Some bsp_tree_to_view_polygons.simps Let_def
      apply (subst (1 2) traversal_acc [of n h "front_node (h ! a)"])
      apply (subst (1 2) traversal_acc [of n h "back_node (h ! a)"])
      by (simp add: p v fs bs)
  qed
qed

lemma traversal_order:
  assumes b: "built h" and a: "a < length h" and n: "length h < n"
  shows "\<exists>p. polygon_list (h ! a) = [p]
          \<and> (if is_leaf (h ! a)
              then bsp_tree_to_view_polygons n h (Some a) vps cam = Some (Inr (vps @ [p]))
              else \<exists>bs fs.
                     bsp_tree_to_view_polygons n h (back_node (h ! a)) [] cam = Some (Inr bs)
                   \<and> bsp_tree_to_view_polygons n h (front_node (h ! a)) [] cam = Some (Inr fs)
                   \<and> bsp_tree_to_view_polygons n h (Some a) vps cam =
                       Some (Inr (vps @ (if dot (vsub (hd (verts p)) cam) (normal p) < 0
                                         then bs @ [p] @ fs else fs @ [p] @ bs))))"
proof -
  have wf: "wf_store h" using b by (simp add: built_def)
  have "length (polygon_list (h ! a)) = 1" using b a unfolding built_def by blast
  then obtain p where p: "polygon_list (h ! a) = [p]"
    by (cases "polygon_list (h ! a)") auto
  obtain m where m: "n = Suc m" "length h \<le> m" using n by (cases n) auto
  have child: "\<exists>out. bsp_tree_to_view_polygons m h c [] cam = Some (Inr out)"
    if "c = front_node (h ! a) \<or> c = back_node (h ! a)" for c
  proof (cases c)
    case None
    have "0 < m" using a m by auto
    then show ?thesis using None traversal_total [OF wf, of None m cam] by simp
  next
    case (Some k)
    then have "k \<in> kids (h ! a)" using that by (auto simp: kids_def)
    then have "a < k" "k < length h" using wf_store_kids [OF wf a] by auto
    then show ?thesis using Some m traversal_total [OF wf, of "Some k" m cam] by auto
  qed
  obtain fs where fs: "bsp_tree_to_view_polygons m h (front_node (h ! a)) [] cam = Some (Inr fs)"
    using child by blast
  obtain bs where bs: "bsp_tree_to_view_polygons m h (back_node (h ! a)) [] cam = Some (Inr bs)"
    using child by blast
  have fs': "bsp_tree_to_view_polygons n h (front_node (h ! a)) [] cam = Some (Inr fs)"
    unfolding m(1) by (rule traversal_fuel_Suc [OF fs])
  have bs': "bsp_tree_to_view_polygons n h (back_node (h ! a)) [] cam = Some (Inr bs)"
    unfolding m(1) by (rule traversal_fuel_Suc [OF bs])
  have "verts p \<noteq> []" using wf_store_node [OF wf a] p by (simp add: node_ok_def)
  then obtain v vs where v: "verts p = v # vs" by (cases "verts p") auto
  have e: "bsp_tree_to_view_polygons n h (Some a) vps cam =
             (if is_leaf (h ! a) then Some (Inr (vps @ [p]))
              else Some (Inr (vps @ (if dot (vsub (hd (verts p)) cam) (normal p) < 0
                                     then bs @ [p] @ fs else fs @ [p] @ bs))))"
    unfolding m(1) bsp_tree_to_view_polygons.simps Let_def
    apply (subst (1 2) traversal_acc [of m h "front_node (h ! a)"])
    apply (subst (1 2) traversal_acc [of m h "back_node (h ! a)"])
    by (simp add: p v fs bs)
  show ?thesis using p e fs' bs' by auto
qed

section \<open>The BSP builder on concrete scenes\<close>


lemma vlen_ramp: "vlength (0, 3 / 5, 4 / 5) = 1"
proof -
  have "dot (0, 3 / 5, 4 / 5) (0, 3 / 5, 4 / 5) = (1::real)" by simp
  then show ?thesis by (simp add: vlength_def)
qed

lemma rp1: "relative_pos ground fin = Inr (- 1)"
  by (simp add: relative_pos_def vert_relative_pos_def distance_point_to_plane_def vlength_def
        PLANE_DISTANCE_THRESHOLD_def ground_def fin_def)

lemma rp2: "relative_pos ground ramp = Inr (- 1)"
  by (simp add: relative_pos_def vert_relative_pos_def distance_point_to_plane_def vlength_def
        PLANE_DISTANCE_THRESHOLD_def ground_def ramp_def)

lemma rp3: "relative_pos ramp fin = Inr 0"
  by (simp add: relative_pos_def vert_relative_pos_def distance_point_to_plane_def
        PLANE_DISTANCE_THRESHOLD_def ramp_def fin_def vlen_ramp)

lemma rp4: "relative_pos ground fin_front = Inr 1"
  by (simp add: relative_pos_def vert_relative_pos_def distance_point_to_plane_def vlength_def
        PLANE_DISTANCE_THRESHOLD_def ground_def fin_def fin_front_def)

lemma fin_rings:
  "cut_rings ramp fin = Inr (verts fin_front, verts fin_back)"
  by (simp add: cut_rings_def cut_step_def ramp_def fin_def fin_front_def fin_back_def
        vert_relative_pos_bool_def
        intersect_line_plane_def FLT_EPSILON_def normalized_z
        POLYGON_CUT_PRECISION_def Let_def upt_conv_Cons)

lemma fin_cut: "cut_conflicting ramp fin = Inr (Some fin_front, Some fin_back)"
  by (simp add: cut_conflicting_def fin_rings cull_def is_fragment_def recalculate_bounds_def
         POLYGON_CULL_THRESHOLD_def upt_conv_Cons fin_front_def fin_back_def)

lemma round_half_2: "round_half (Suc (Suc 0)) = Suc 0"
proof -
  have "round_half 2 = 1" by (simp add: round_half_def)
  then show ?thesis by (simp add: numeral_2_eq_2)
qed

lemma round_half_3: "round_half (Suc (Suc (Suc 0))) = Suc (Suc 0)"
proof -
  have "round_half 3 = 2" by (simp add: round_half_def)
  then show ?thesis by (simp add: numeral_3_eq_3 numeral_2_eq_2)
qed

lemma ce_build: "depth_sort_bsp [ramp, fin, ground] 500 = Inr ce_store"
  by (simp add: depth_sort_bsp_def round_half_2 round_half_3 pop_rest_def partition_step_def
        append_front_def append_back_def new_BSPNode_def rp1 rp2 rp3 fin_cut
        bsp_cycles.simps [of _ 0] bsp_cycles.simps [of _ 1] bsp_partition_def split_node_def ce_store_def
        numeral_2_eq_2 numeral_3_eq_3 Let_def)


lemma vrp_level:
  "vert_relative_pos (level z) (x, y, z') =
     Inr (if \<bar>z' - z\<bar> < 1 / 1000 then 0 else if z' - z > 0 then 1 else - 1)"
  by (simp add: level_def vert_relative_pos_def distance_point_to_plane_def
        vlength_def PLANE_DISTANCE_THRESHOLD_def unit_square_def)

lemma rp_level:
  "relative_pos (level z) (level z') = Inr (if z' - z \<le> - 1 / 1000 then - 1 else 1)"
proof -
  have ne: "verts (level z) \<noteq> []" by (simp add: level_def unit_square_def)
  have vs: "verts (level z') = [(0, 0, z'), (0 + 1, 0, z'), (0 + 1, 1, z'), (0, 1, z')]"
    by (simp add: level_def unit_square_def)
  show ?thesis
    unfolding relative_pos_eq [OF ne] vs by (simp add: vrp_level)
qed

lemma round_half_4: "round_half (Suc (Suc (Suc (Suc n)))) = Suc (Suc (round_half n))"
  by (auto simp: round_half_def)

lemma round_half_base:
  "round_half 0 = 0" "round_half (Suc 0) = 0" "round_half (Suc (Suc 0)) = Suc 0"
  "round_half (Suc (Suc (Suc 0))) = Suc (Suc 0)"
  by (simp_all add: round_half_2 round_half_3) (simp_all add: round_half_def)


lemma partition_step_level:
  "partition_step (level z) a (level z') h =
     Inr (if z' - z \<le> - 1 / 1000 then append_back a (level z') h else append_front a (level z') h)"
  by (simp add: partition_step_def rp_level)

lemma levels_root:
  "partition_loop (level 7) 0 [level 1, level 2, level 3, level 4, level 5, level 6, level 8, level 9, level 10, level 11] (Suc (Suc (Suc (Suc (Suc (Suc (Suc (Suc (Suc (Suc 0))))))))))
     [new_BSPNode\<lparr>polygon_list := [level 7], is_leaf := False\<rparr>] = Inr levels_store0"
  by (simp add: pop_rest_def partition_step_level append_front_def append_back_def new_BSPNode_def
        levels_store0_def)

lemma levels_pass1:
  "bsp_partition levels_store0 [1, 2] = Inr (True, levels_store1, [6, 5, 4, 3])"
  by (simp add: bsp_partition_def split_node_def round_half_4 round_half_base pop_rest_def
        partition_step_level append_front_def append_back_def new_BSPNode_def Let_def
        levels_store0_def levels_store1_def)

lemma levels_pass2:
  "bsp_partition levels_store1 [6, 5, 4, 3] = Inr (True, levels_store2, [3, 9, 8, 7])"
  by (simp add: bsp_partition_def split_node_def round_half_4 round_half_base pop_rest_def
        partition_step_level append_front_def append_back_def new_BSPNode_def Let_def
        levels_store1_def levels_store2_def)

lemma levels_pass3:
  "bsp_partition levels_store2 [3, 9, 8, 7] = Inr (True, levels_store3, [3, 9, 8, 10])"
  by (simp add: bsp_partition_def split_node_def round_half_4 round_half_base pop_rest_def
        partition_step_level append_front_def append_back_def new_BSPNode_def Let_def
        levels_store2_def levels_store3_def)

lemma levels_pass4:
  "bsp_partition levels_store3 [3, 9, 8, 10] = Inr (False, levels_store3, [3, 9, 8, 10])"
  by (simp add: bsp_partition_def split_node_def round_half_4 round_half_base pop_rest_def
        partition_step_level append_front_def append_back_def new_BSPNode_def Let_def
        levels_store3_def levels_store3_def)

lemma chain_root:
  "partition_loop (level 7) 0 [level 1, level 4, level 6, level 5, level 2, level 3] (Suc (Suc (Suc (Suc (Suc (Suc 0))))))
     [new_BSPNode\<lparr>polygon_list := [level 7], is_leaf := False\<rparr>] = Inr chain_store0"
  by (simp add: pop_rest_def partition_step_level append_front_def append_back_def new_BSPNode_def
        chain_store0_def)

lemma chain_pass1:
  "bsp_partition chain_store0 [1] = Inr (True, chain_store1, [2])"
  by (simp add: bsp_partition_def split_node_def round_half_4 round_half_base pop_rest_def
        partition_step_level append_front_def append_back_def new_BSPNode_def Let_def
        chain_store0_def chain_store1_def)

lemma chain_pass2:
  "bsp_partition chain_store1 [2] = Inr (True, chain_store2, [3])"
  by (simp add: bsp_partition_def split_node_def round_half_4 round_half_base pop_rest_def
        partition_step_level append_front_def append_back_def new_BSPNode_def Let_def
        chain_store1_def chain_store2_def)

lemma chain_pass3:
  "bsp_partition chain_store2 [3] = Inr (True, chain_store3, [4])"
  by (simp add: bsp_partition_def split_node_def round_half_4 round_half_base pop_rest_def
        partition_step_level append_front_def append_back_def new_BSPNode_def Let_def
        chain_store2_def chain_store3_def)

lemma chain_pass4:
  "bsp_partition chain_store3 [4] = Inr (True, chain_store4, [5])"
  by (simp add: bsp_partition_def split_node_def round_half_4 round_half_base pop_rest_def
        partition_step_level append_front_def append_back_def new_BSPNode_def Let_def
        chain_store3_def chain_store4_def)

lemma chain_pass5:
  "bsp_partition chain_store4 [5] = Inr (True, chain_store5, [6])"
  by (simp add: bsp_partition_def split_node_def round_half_4 round_half_base pop_rest_def
        partition_step_level append_front_def append_back_def new_BSPNode_def Let_def
        chain_store4_def chain_store5_def)

lemma chain_pass6:
  "bsp_partition chain_store5 [6] = Inr (False, chain_store5, [6])"
  by (simp add: bsp_partition_def split_node_def round_half_4 round_half_base pop_rest_def
        partition_step_level append_front_def append_back_def new_BSPNode_def Let_def
        chain_store5_def chain_store5_def)

lemma levels_cycles: "bsp_cycles 5 0 levels_store0 [1, 2] = Inr levels_store3"
  apply (subst bsp_cycles.simps, subst levels_pass1, simp)
  apply (subst bsp_cycles.simps, subst levels_pass2, simp)
  apply (subst bsp_cycles.simps, subst levels_pass3, simp)
  apply (subst bsp_cycles.simps, subst levels_pass4, simp)
  done

lemma levels_build: "depth_sort_bsp levels 5 = Inr levels_store3"
proof -
  have k: "front_node (levels_store0 ! 0) = Some 1" "back_node (levels_store0 ! 0) = Some 2"
    by (simp_all add: levels_store0_def)
  show ?thesis
    unfolding depth_sort_bsp_def levels_def
    apply (simp add: round_half_4 round_half_base pop_rest_def Let_def del: partition_loop.simps)
    apply (subst levels_root)
    apply (simp add: k del: One_nat_def)
    apply (rule levels_cycles)
    done
qed

lemma chain_cycles_5: "bsp_cycles 5 0 chain_store0 [1] = Inl RecursionError"
  apply (subst bsp_cycles.simps, subst chain_pass1, simp)
  apply (subst bsp_cycles.simps, subst chain_pass2, simp)
  apply (subst bsp_cycles.simps, subst chain_pass3, simp)
  apply (subst bsp_cycles.simps, subst chain_pass4, simp)
  apply (subst bsp_cycles.simps, subst chain_pass5, simp)
  done

lemma chain_cycles_6: "bsp_cycles 6 0 chain_store0 [1] = Inr chain_store5"
  apply (subst bsp_cycles.simps, subst chain_pass1, simp)
  apply (subst bsp_cycles.simps, subst chain_pass2, simp)
  apply (subst bsp_cycles.simps, subst chain_pass3, simp)
  apply (subst bsp_cycles.simps, subst chain_pass4, simp)
  apply (subst bsp_cycles.simps, subst chain_pass5, simp)
  apply (subst bsp_cycles.simps, subst chain_pass6, simp)
  done

lemma chain_build:
  "depth_sort_bsp chain cycle_limit = bsp_cycles cycle_limit 0 chain_store0 [1]"
proof -
  have k: "front_node (chain_store0 ! 0) = None" "back_node (chain_store0 ! 0) = Some 1"
    by (simp_all add: chain_store0_def)
  show ?thesis
    unfolding depth_sort_bsp_def chain_def
    apply (simp add: round_half_4 round_half_base pop_rest_def Let_def del: partition_loop.simps)
    apply (subst chain_root)
    apply (simp add: k)
    done
qed

section \<open>The BSP traversal and the cycle limit: claims\<close>

text \<open>
  Claim C1, at the empty scene. For an empty polygon list \<open>depth_sort_bsp\<close> returns a
  tree whose root is a leaf without a polygon, and \<open>bsp_tree_to_view_polygons\<close> raises
  IndexError on it (at \<^verbatim>\<open>root.polygon_list[0]\<close>) instead of emitting nothing.
\<close>

theorem bsp_traversal_empty_scene:
  "depth_sort_bsp [] cycle_limit = Inr [new_BSPNode]
   \<and> bsp_tree_to_view_polygons (Suc n) [new_BSPNode] (Some 0) view_polygons camera_pos
       = Some (Inl IndexError)"
  by (simp add: depth_sort_bsp_def new_BSPNode_def)

text \<open>
  The traversal of every tree built from a non-empty list of polygons with a vertex,
  from every viewpoint: with room for more nested calls than the tree has nodes, the
  call returns; every node holds exactly one polygon; at a leaf the call appends that
  polygon; at an inner node, when the dot product of (first vertex of the node's
  polygon minus the viewpoint) with the polygon's normal is negative it appends what
  the back subtree gives, then the node's polygon, then what the front subtree
  gives, and otherwise the front subtree, the polygon, the back subtree.
\<close>

theorem bsp_traversal_order:
  assumes "view_polygons \<noteq> []" and "\<forall>p \<in> set view_polygons. verts p \<noteq> []"
    and "depth_sort_bsp view_polygons cycle_limit = Inr h"
    and "a < length h" and "length h < n"
  shows "\<exists>p. polygon_list (h ! a) = [p]
          \<and> (if is_leaf (h ! a)
              then bsp_tree_to_view_polygons n h (Some a) vps cam = Some (Inr (vps @ [p]))
              else \<exists>bs fs.
                     bsp_tree_to_view_polygons n h (back_node (h ! a)) [] cam = Some (Inr bs)
                   \<and> bsp_tree_to_view_polygons n h (front_node (h ! a)) [] cam = Some (Inr fs)
                   \<and> bsp_tree_to_view_polygons n h (Some a) vps cam =
                       Some (Inr (vps @ (if dot (vsub (hd (verts p)) cam) (normal p) < 0
                                         then bs @ [p] @ fs else fs @ [p] @ bs))))"
proof -
  have "built h" using depth_sort_bsp_result [OF assms(1,2), of cycle_limit] assms(3) by auto
  then show ?thesis using assms(4,5) by (rule traversal_order)
qed

theorem bsp_traversal_order_witness:
  "[ramp, fin, ground] \<noteq> [] \<and> list_all (\<lambda>p. verts p \<noteq> []) [ramp, fin, ground]
   \<and> depth_sort_bsp [ramp, fin, ground] 500 = Inr ce_store
   \<and> bsp_tree_to_view_polygons 5 ce_store (Some 1) [ground] (1 / 2, 1 / 2, 0)
       = Some (Inr [ground, fin_front, ramp, fin_back])
   \<and> bsp_tree_to_view_polygons 5 ce_store (Some 2) [] (1 / 2, 1 / 2, 0) = Some (Inr [fin_front])"
proof -
  have ok: "\<forall>p \<in> set [ramp, fin, ground]. verts p \<noteq> []"
    by (simp add: ramp_def fin_def ground_def)
  have ne: "[ramp, fin, ground] \<noteq> []" by simp
  have len: "length ce_store = 4" by (simp add: ce_store_def)
  have n1: "ce_store ! 1 = \<lparr>front_node = Some 2, back_node = Some 3, is_leaf = False,
                             polygon_list = [ramp]\<rparr>"
    and n2: "ce_store ! 2 = \<lparr>front_node = None, back_node = None, is_leaf = True,
                             polygon_list = [fin_front]\<rparr>"
    and n3: "ce_store ! 3 = \<lparr>front_node = None, back_node = None, is_leaf = True,
                             polygon_list = [fin_back]\<rparr>"
    by (simp_all add: ce_store_def)
  note t = bsp_traversal_order [OF ne ok ce_build, of _ 5 _ "(1 / 2, 1 / 2, 0)"]
  have l2: "bsp_tree_to_view_polygons 5 ce_store (Some 2) vps (1 / 2, 1 / 2, 0)
              = Some (Inr (vps @ [fin_front]))" for vps
    using t [of 2 vps] by (simp add: len n2)
  have l3: "bsp_tree_to_view_polygons 5 ce_store (Some 3) vps (1 / 2, 1 / 2, 0)
              = Some (Inr (vps @ [fin_back]))" for vps
    using t [of 3 vps] by (simp add: len n3)
  have d: "\<not> dot (vsub (hd (verts ramp)) (1 / 2, 1 / 2, 0)) (normal ramp) < 0"
    by (simp add: ramp_def)
  have l1: "bsp_tree_to_view_polygons 5 ce_store (Some 1) [ground] (1 / 2, 1 / 2, 0)
              = Some (Inr [ground, fin_front, ramp, fin_back])"
    using t [of 1 "[ground]"] d by (simp add: len n1 l2 l3 del: One_nat_def)
  show ?thesis using ok l1 l2 [of "[]"] ce_build by (simp add: list_all_iff)
qed

lemma depth_sort_bsp_total:
  assumes "\<forall>p \<in> set view_polygons. verts p \<noteq> []"
  shows "depth_sort_bsp view_polygons cycle_limit = Inl RecursionError
       \<or> (\<exists>h. depth_sort_bsp view_polygons cycle_limit = Inr h)"
proof (cases "view_polygons = []")
  case True
  then show ?thesis by (simp add: depth_sort_bsp_def)
next
  case False
  then show ?thesis
    using depth_sort_bsp_result [OF False assms, of cycle_limit] by auto
qed

text \<open>
  Claim C5 as stated fails: the builder subdivides seven nodes of the eleven stacked
  squares and returns the tree under the cycle limit 5.
\<close>

theorem cycle_counter_counterexample:
  "\<exists>h. depth_sort_bsp levels 5 = Inr h \<and> 5 < subdivisions h"
proof -
  have "subdivisions levels_store3 = 7" by (simp add: subdivisions_def levels_store3_def)
  then show ?thesis using levels_build by simp
qed

text \<open>
  Claim C5, amended. The counter \<open>j\<close> of \<open>depth_sort_bsp\<close> counts the passes of
  \<open>bsp_partition\<close> over the list of leaves that changed the tree (one pass subdivides
  every leaf with more than one polygon): after a pass that changed nothing the tree
  is returned, after one that changed the tree RecursionError is raised as soon as
  \<open>j + 1 \<ge> cycle_limit\<close>, and the loop goes on otherwise. On every list of polygons
  with a vertex the build returns a tree or raises RecursionError. The seven squares
  \<open>chain\<close> need five changing passes: the build raises at the limit 5 and returns at
  the limit 6.
\<close>

theorem depth_sort_bsp_cycle_limit:
  "((\<forall>p \<in> set view_polygons. verts p \<noteq> []) \<longrightarrow>
      depth_sort_bsp view_polygons cycle_limit = Inl RecursionError
      \<or> (\<exists>t. depth_sort_bsp view_polygons cycle_limit = Inr t))
   \<and> (bsp_partition h ns = Inr (changed, h', ns') \<longrightarrow>
        bsp_cycles cycle_limit j h ns =
          (if \<not> changed then Inr h'
           else if j + 1 \<ge> cycle_limit then Inl RecursionError
           else bsp_cycles cycle_limit (j + 1) h' ns'))
   \<and> depth_sort_bsp chain 5 = Inl RecursionError
   \<and> depth_sort_bsp chain 6 = Inr chain_store5"
proof (intro conjI impI)
  assume "\<forall>p \<in> set view_polygons. verts p \<noteq> []"
  then show "depth_sort_bsp view_polygons cycle_limit = Inl RecursionError
      \<or> (\<exists>t. depth_sort_bsp view_polygons cycle_limit = Inr t)"
    by (rule depth_sort_bsp_total)
next
  assume "bsp_partition h ns = Inr (changed, h', ns')"
  then show "bsp_cycles cycle_limit j h ns =
          (if \<not> changed then Inr h'
           else if j + 1 \<ge> cycle_limit then Inl RecursionError
           else bsp_cycles cycle_limit (j + 1) h' ns')"
    by (subst bsp_cycles.simps) simp
next
  show "depth_sort_bsp chain 5 = Inl RecursionError"
    using chain_cycles_5 by (simp only: chain_build)
  show "depth_sort_bsp chain 6 = Inr chain_store5"
    using chain_cycles_6 by (simp only: chain_build)
qed

theorem depth_sort_bsp_cycle_limit_witness:
  "list_all (\<lambda>p. verts p \<noteq> []) levels
   \<and> (\<exists>t. depth_sort_bsp levels 5 = Inr t)
   \<and> bsp_partition chain_store4 [5] = Inr (True, chain_store5, [6])
   \<and> bsp_cycles 5 4 chain_store4 [5] = Inl RecursionError
   \<and> bsp_cycles 6 4 chain_store4 [5] = bsp_cycles 6 5 chain_store5 [6]"
proof -
  have ok: "\<forall>p \<in> set levels. verts p \<noteq> []"
    by (simp add: levels_def level_def unit_square_def)
  have "depth_sort_bsp levels 5 = Inl RecursionError
      \<or> (\<exists>t. depth_sort_bsp levels 5 = Inr t)"
    using depth_sort_bsp_cycle_limit [of levels 5] ok by blast
  then have 1: "\<exists>t. depth_sort_bsp levels 5 = Inr t"
    by (simp add: levels_build)
  have 2: "bsp_cycles 5 4 chain_store4 [5] = Inl RecursionError"
    using depth_sort_bsp_cycle_limit [of "[]" 5 chain_store4 "[5]" True chain_store5 "[6]" 4]
      chain_pass5 by simp
  have 3: "bsp_cycles 6 4 chain_store4 [5] = bsp_cycles 6 5 chain_store5 [6]"
    using depth_sort_bsp_cycle_limit [of "[]" 6 chain_store4 "[5]" True chain_store5 "[6]" 4]
      chain_pass5 by simp
  show ?thesis using ok 1 2 3 chain_pass5 by (simp add: list_all_iff)
qed

end
